theory Spec2Isabelle
  imports Main "HOL-Library.Signed_Division" "HOL-Library.Word"
begin

unbundle bit_operations_syntax

section \<open>JavaScript values\<close>

text \<open>
  A BigInt is an unbounded integer, so it is an \<open>int\<close>. On BigInts \<open>/\<close> and \<open>%\<close>
  truncate towards zero (\<open>sdiv\<close> and \<open>smod\<close>), \<open>>> 1n\<close> is the arithmetic shift
  (\<open>drop_bit 1\<close>, which rounds down), \<open><<\<close> is \<open>push_bit\<close> and \<open>& 1n\<close> is \<open>AND 1\<close>.
  A division or remainder by \<open>0n\<close> throws a RangeError; the functions below return
  \<open>Inl RangeError\<close> at the first statement that would evaluate one.
\<close>

datatype error =
    RangeError          \<comment> \<open>BigInt division by zero\<close>
  | IsqrtNegative       \<comment> \<open>\<open>throw new Error("isqrt of negative")\<close>\<close>

section \<open>Modular exponentiation\<close>

text \<open>
  \<open>modPow\<close> occurs three times in the sources (the calculator script, lines 105-115;
  FactoriX, lines 85-89; FactoriXUPE, lines 311-319). The three bodies are the same
  loop up to the names of the local variables:
  \<^verbatim>\<open>
  let b = base % mod; let e = exp; let r = 1n;
  while (e > 0n) { if (e & 1n) r = (r * b) % mod; b = (b * b) % mod; e >>= 1n; }
  return r;
  \<close>
\<close>

function modPow_loop :: "int \<Rightarrow> int \<Rightarrow> int \<Rightarrow> int \<Rightarrow> int" where
  "modPow_loop b e r m =
     (if e > 0
      then modPow_loop ((b * b) smod m) (drop_bit 1 e)
             (if e AND 1 \<noteq> 0 then (r * b) smod m else r) m
      else r)"
  by pat_completeness auto
termination
  by (relation "measure (\<lambda>(b, e, r, m). nat e)") (auto simp: drop_bit_eq_div)

declare modPow_loop.simps [simp del]

definition modPow :: "int \<Rightarrow> int \<Rightarrow> int \<Rightarrow> error + int" where
  "modPow base exp m =
     (if m = 0 then Inl RangeError
      else Inr (modPow_loop (base smod m) exp 1 m))"

section \<open>Integer square root\<close>

text \<open>
  The bit-by-bit \<open>isqrt\<close> of the calculator script (lines 76-88) and of FactoriX
  (lines 220-231), the same text in both files. \<open>n.toString(2).length\<close> is the
  number of characters of the binary numeral of \<open>n\<close>, with one more for the sign of
  a negative \<open>n\<close>.
\<close>

function binary_digits :: "int \<Rightarrow> nat" where
  "binary_digits n = (if n < 2 then 1 else 1 + binary_digits (n div 2))"
  by pat_completeness auto
termination
  by (relation "measure nat") auto

declare binary_digits.simps [simp del]

definition toString2_length :: "int \<Rightarrow> nat" where
  "toString2_length n = (if n < 0 then 1 + binary_digits (- n) else binary_digits n)"

function isqrt_loop :: "int \<Rightarrow> int \<Rightarrow> int \<Rightarrow> int" where
  "isqrt_loop n x0 bt =
     (if bt > 0
      then isqrt_loop n (if (x0 + bt) * (x0 + bt) \<le> n then x0 + bt else x0) (drop_bit 1 bt)
      else x0)"
  by pat_completeness auto
termination
  by (relation "measure (\<lambda>(n, x0, bt). nat bt)") (auto simp: drop_bit_eq_div)

declare isqrt_loop.simps [simp del]

definition isqrt :: "int \<Rightarrow> error + int" where
  "isqrt n =
     (if n < 0 then Inl IsqrtNegative
      else if n < 2 then Inr n
      else Inr (isqrt_loop n 1 (push_bit (toString2_length n - 1) 1)))"

text \<open>
  The Newton \<open>isqrt\<close> of FactoriXUPE (lines 303-309):
  \<^verbatim>\<open>
  let x = n, y = (x + 1n) >> 1n;
  while (y < x){ x = y; y = (x + n / x) >> 1n; }
  return x;
  \<close>
  The loop is not bounded by its text, so it is a partial function: \<open>None\<close> is a
  run that never returns.
\<close>

partial_function (option) newton_loop :: "int \<Rightarrow> int \<Rightarrow> int \<Rightarrow> (error + int) option" where
  "newton_loop n x y =
     (if y < x
      then (if y = 0 then Some (Inl RangeError)
            else newton_loop n y (drop_bit 1 (y + n sdiv y)))
      else Some (Inr x))"

declare newton_loop.simps [code]

definition isqrt_newton :: "int \<Rightarrow> (error + int) option" where
  "isqrt_newton n =
     (if n < 0 then Some (Inl IsqrtNegative)
      else if n < 2 then Some (Inr n)
      else newton_loop n n (drop_bit 1 (n + 1)))"

section \<open>Primality\<close>

text \<open>
  The reference notion the claims speak about: an integer greater than 1 with no
  divisor strictly between 1 and itself.
\<close>

definition is_prime :: "int \<Rightarrow> bool" where
  "is_prime n \<longleftrightarrow> 1 < n \<and> (\<forall>d \<in> {2..<n}. \<not> d dvd n)"

section \<open>Miller-Rabin\<close>

text \<open>
  \<^verbatim>\<open>let d = n - 1n, s = 0n; while ((d & 1n) === 0n) { d >>= 1n; s++; }\<close>
  (calculator script, lines 125-126; FactoriX, line 94; FactoriXUPE, lines 326-327).
  Nothing in the text of the loop bounds it (it spins on \<open>d = 0\<close>), so it is a
  partial function.
\<close>

partial_function (option) oddPart_loop :: "int \<Rightarrow> int \<Rightarrow> (int \<times> int) option" where
  "oddPart_loop d s =
     (if d AND 1 = 0 then oddPart_loop (drop_bit 1 d) (s + 1) else Some (d, s))"

declare oddPart_loop.simps [code]

text \<open>
  The squaring loop shared by \<open>trial\<close> and by \<open>isPrime64\<close>:
  \<^verbatim>\<open>for (let r = 1n; r < s; r++) { x = (x * x) % n; if (x === n - 1n) return true; } return false;\<close>
\<close>

function squaring_loop :: "int \<Rightarrow> int \<Rightarrow> int \<Rightarrow> int \<Rightarrow> bool" where
  "squaring_loop n s r x =
     (if r < s
      then (if (x * x) smod n = n - 1 then True
            else squaring_loop n s (r + 1) ((x * x) smod n))
      else False)"
  by pat_completeness auto
termination
  by (relation "measure (\<lambda>(n, s, r, x). nat (s - r))") auto

declare squaring_loop.simps [simp del]

text \<open>The local function \<open>trial(a)\<close> of \<open>isProbablePrime\<close>, closed over \<open>n\<close>, \<open>d\<close>, \<open>s\<close>.\<close>

definition trial :: "int \<Rightarrow> int \<Rightarrow> int \<Rightarrow> int \<Rightarrow> error + bool" where
  "trial n d s a =
     (if n = 0 then Inl RangeError
      else if a smod n = 0 then Inr True
      else case modPow a d n of
             Inl e \<Rightarrow> Inl e
           | Inr x \<Rightarrow>
               if x = 1 \<or> x = n - 1 then Inr True
               else Inr (squaring_loop n s 1 x))"

text \<open>
  \<^verbatim>\<open>for (const p of small) { if (n === p) return true; if (n % p === 0n) return n === p; }\<close>
  \<open>Some b\<close> is a return of \<open>b\<close> from \<open>isProbablePrime\<close>, \<open>None\<close> is falling out
  of the loop.
\<close>

fun small_loop :: "int \<Rightarrow> int list \<Rightarrow> bool option" where
  "small_loop n [] = None"
| "small_loop n (p # ps) =
     (if n = p then Some True
      else if n smod p = 0 then Some (n = p)
      else small_loop n ps)"

text \<open>
  \<^verbatim>\<open>for (const a of fixed) { if (!trial(a)) return false; cnt++; if (cnt >= rounds) return true; }\<close>
  \<open>Inr (Inl b)\<close> is a return of \<open>b\<close>, \<open>Inr (Inr cnt)\<close> is falling out of the loop
  with the counter.
\<close>

fun fixed_loop :: "int \<Rightarrow> int \<Rightarrow> int \<Rightarrow> int \<Rightarrow> int list \<Rightarrow> int \<Rightarrow> error + (bool + int)" where
  "fixed_loop n d s rounds [] cnt = Inr (Inr cnt)"
| "fixed_loop n d s rounds (a # as) cnt =
     (case trial n d s a of
        Inl e \<Rightarrow> Inl e
      | Inr False \<Rightarrow> Inr (Inl False)
      | Inr True \<Rightarrow>
          if cnt + 1 \<ge> rounds then Inr (Inl True)
          else fixed_loop n d s rounds as (cnt + 1))"

text \<open>
  The seed is a JavaScript number, a double:
  \<^verbatim>\<open>seed = (1103515245 * seed + 12345) & 0x7fffffff;\<close>
  The product can exceed \<open>2^53\<close>, so it is rounded to the nearest double (ties to
  even), and so is the sum; \<open>&\<close> then keeps the low 31 bits of the integer value.
  \<open>toDouble\<close> is that rounding on the non-negative integers below \<open>2^1024\<close>.
\<close>

definition toDouble :: "int \<Rightarrow> int" where
  "toDouble v =
     (let k = binary_digits v in
      if k \<le> 53 then v
      else let sh = k - 53; q = v div 2 ^ sh; r = v mod 2 ^ sh; h = 2 ^ (sh - 1)
           in if r > h \<or> (r = h \<and> odd q) then (q + 1) * 2 ^ sh else q * 2 ^ sh)"

definition rnd32 :: "int \<Rightarrow> int" where
  "rnd32 seed = toDouble (toDouble (1103515245 * seed) + 12345) mod 2 ^ 31"

text \<open>
  \<^verbatim>\<open>
  while (cnt < rounds) {
    let a = 2n + (rnd32() % (span > 0n ? span : 1n));
    if (a >= n) a = (a % (n - 2n)) + 2n;
    if (!trial(a)) return false;
    cnt++;
  }
  return true;
  \<close>
\<close>

function random_loop :: "int \<Rightarrow> int \<Rightarrow> int \<Rightarrow> int \<Rightarrow> int \<Rightarrow> int \<Rightarrow> error + bool" where
  "random_loop n d s rounds seed cnt =
     (if cnt < rounds
      then (let seed' = rnd32 seed;
                span = n - 3;
                a = 2 + seed' smod (if span > 0 then span else 1)
            in if a \<ge> n \<and> n - 2 = 0 then Inl RangeError
               else case trial n d s (if a \<ge> n then a smod (n - 2) + 2 else a) of
                      Inl e \<Rightarrow> Inl e
                    | Inr False \<Rightarrow> Inr False
                    | Inr True \<Rightarrow> random_loop n d s rounds seed' (cnt + 1))
      else Inr True)"
  by pat_completeness auto
termination
  by (relation "measure (\<lambda>(n, d, s, rounds, seed, cnt). nat (rounds - cnt))") auto

declare random_loop.simps [simp del]

text \<open>
  \<open>isProbablePrime\<close> (calculator script, lines 117-161, and FactoriX, lines 90-116:
  the same statements, the second with \<open>rnd32\<close> written in line).
  \<open>None\<close> is a run that does not return, \<open>Some (Inl e)\<close> a throw.
\<close>

definition isProbablePrime :: "int \<Rightarrow> int \<Rightarrow> (error + bool) option" where
  "isProbablePrime n rounds =
     (if n < 2 then Some (Inr False)
      else case small_loop n [2, 3, 5, 7, 11, 13, 17, 19, 23, 29, 31, 37] of
             Some b \<Rightarrow> Some (Inr b)
           | None \<Rightarrow>
               (case oddPart_loop (n - 1) 0 of
                  None \<Rightarrow> None
                | Some (d, s) \<Rightarrow>
                    (case fixed_loop n d s rounds [2, 3, 5, 7, 11, 13, 17] 0 of
                       Inl e \<Rightarrow> Some (Inl e)
                     | Inr (Inl b) \<Rightarrow> Some (Inr b)
                     | Inr (Inr cnt) \<Rightarrow> Some (random_loop n d s rounds 123456789 cnt))))"

text \<open>
  \<open>isPrime64\<close> of FactoriXUPE (lines 322-341).
  \<^verbatim>\<open>for (const p of small){ if (n % p === 0n) return n === p; }\<close>
\<close>

fun small_loop64 :: "int \<Rightarrow> int list \<Rightarrow> bool option" where
  "small_loop64 n [] = None"
| "small_loop64 n (p # ps) =
     (if n smod p = 0 then Some (n = p) else small_loop64 n ps)"

text \<open>
  \<^verbatim>\<open>
  for (const a of bases){
    if (a % n === 0n) continue;
    let x = modPow(a, d, n);
    if (x === 1n || x === n-1n) continue;
    let ok = false;
    for (let r=1n; r<s; r++){ x = (x*x) % n; if (x === n-1n){ ok = true; break; } }
    if (!ok) return false;
  }
  return true;
  \<close>
\<close>

fun bases_loop :: "int \<Rightarrow> int \<Rightarrow> int \<Rightarrow> int list \<Rightarrow> error + bool" where
  "bases_loop n d s [] = Inr True"
| "bases_loop n d s (a # as) =
     (if n = 0 then Inl RangeError
      else if a smod n = 0 then bases_loop n d s as
      else case modPow a d n of
             Inl e \<Rightarrow> Inl e
           | Inr x \<Rightarrow>
               if x = 1 \<or> x = n - 1 then bases_loop n d s as
               else if squaring_loop n s 1 x then bases_loop n d s as
               else Inr False)"

definition isPrime64 :: "int \<Rightarrow> (error + bool) option" where
  "isPrime64 n =
     (if n < 2 then Some (Inr False)
      else case small_loop64 n [2, 3, 5, 7, 11, 13, 17, 19, 23, 29] of
             Some b \<Rightarrow> Some (Inr b)
           | None \<Rightarrow>
               (case oddPart_loop (n - 1) 0 of
                  None \<Rightarrow> None
                | Some (d, s) \<Rightarrow> Some (bases_loop n d s [2, 3, 5, 7, 11, 13, 17])))"

section \<open>Admissibility\<close>

text \<open>
  The offsets \<open>u\<close>, \<open>t\<close> and the sieve primes are JavaScript numbers holding
  integers; \<open>BigInt(u)\<close> is then the same integer.
  \<open>admissibleSingle\<close> (calculator script, lines 165-175).
\<close>

fun admissibleSingle_loop :: "int \<Rightarrow> int list \<Rightarrow> error + bool" where
  "admissibleSingle_loop Xu [] = Inr True"
| "admissibleSingle_loop Xu (sb # S) =
     (if Xu = sb then Inr True
      else if sb = 0 then Inl RangeError
      else if Xu smod sb = 0 then Inr False
      else admissibleSingle_loop Xu S)"

definition admissibleSingle :: "int \<Rightarrow> int \<Rightarrow> int list \<Rightarrow> error + bool" where
  "admissibleSingle X u S =
     (let Xu = X + u in
      if Xu < 2 then Inr False
      else if Xu smod 2 = 0 then Inr (Xu = 2)
      else admissibleSingle_loop Xu S)"

text \<open>\<open>admissibleGoldbach\<close> (calculator script, lines 177-188).\<close>

fun admissiblePair_loop :: "int \<Rightarrow> int \<Rightarrow> int list \<Rightarrow> error + bool" where
  "admissiblePair_loop a b [] = Inr True"
| "admissiblePair_loop a b (sb # S) =
     (if a = sb \<or> b = sb then admissiblePair_loop a b S
      else if sb = 0 then Inl RangeError
      else if a smod sb = 0 \<or> b smod sb = 0 then Inr False
      else admissiblePair_loop a b S)"

definition admissibleGoldbach :: "int \<Rightarrow> int \<Rightarrow> int list \<Rightarrow> error + bool" where
  "admissibleGoldbach x t S =
     (let a = x - t; b = x + t in
      if a < 2 \<or> b < 2 then Inr False
      else if (a smod 2 = 0 \<and> a \<noteq> 2) \<or> (b smod 2 = 0 \<and> b \<noteq> 2) then Inr False
      else admissiblePair_loop a b S)"

text \<open>
  \<open>admissibleAroundSqrt\<close> (FactoriX, lines 119-131) has the body of
  \<open>admissibleGoldbach\<close> behind a read of the global \<open>state.abort\<close>; the global
  \<open>state\<close> is passed explicitly.
\<close>

record state =
  running :: bool
  abort :: bool

definition admissibleAroundSqrt :: "state \<Rightarrow> int \<Rightarrow> int \<Rightarrow> int list \<Rightarrow> error + bool" where
  "admissibleAroundSqrt st x t S =
     (if abort st then Inr False
      else let a = x - t; b = x + t in
        if a < 2 \<or> b < 2 then Inr False
        else if (a smod 2 = 0 \<and> a \<noteq> 2) \<or> (b smod 2 = 0 \<and> b \<noteq> 2) then Inr False
        else admissiblePair_loop a b S)"

section \<open>Parsing the input\<close>

text \<open>
  A JavaScript string is a sequence of UTF-16 code units, here natural numbers.
  \<open>isSpace\<close> holds of the code units that the regular expression class \<open>\s\<close>
  matches; \<open>String.prototype.trim\<close> strips the same ones.
\<close>

type_synonym jsstring = "nat list"

text \<open>The code units of an ASCII literal.\<close>

definition js :: "string \<Rightarrow> jsstring" where
  "js s = map of_char s"

definition isSpace :: "nat \<Rightarrow> bool" where
  "isSpace c \<longleftrightarrow>
     c \<in> {9, 10, 11, 12, 13, 32, 160, 5760, 8232, 8233, 8239, 8287, 12288, 65279}
     \<or> (8192 \<le> c \<and> c \<le> 8202)"

definition trim :: "jsstring \<Rightarrow> jsstring" where
  "trim s = rev (dropWhile isSpace (rev (dropWhile isSpace s)))"

text \<open>\<^verbatim>\<open>.replace(/\s+/g, "")\<close>\<close>

definition removeSpaces :: "jsstring \<Rightarrow> jsstring" where
  "removeSpaces s = filter (\<lambda>c. \<not> isSpace c) s"

definition isDigit :: "nat \<Rightarrow> bool" where
  "isDigit c \<longleftrightarrow> 48 \<le> c \<and> c \<le> 57"

text \<open>\<^verbatim>\<open>/^[0-9]+$/.test(s)\<close>\<close>

definition isDigitsOnly :: "jsstring \<Rightarrow> bool" where
  "isDigitsOnly s \<longleftrightarrow> s \<noteq> [] \<and> list_all isDigit s"

text \<open>\<open>BigInt(s)\<close> on a string of decimal digits.\<close>

definition BigInt_of_digits :: "jsstring \<Rightarrow> int" where
  "BigInt_of_digits s = foldl (\<lambda>acc c. 10 * acc + int (c - 48)) 0 s"

function powBI_loop :: "int \<Rightarrow> int \<Rightarrow> int \<Rightarrow> int" where
  "powBI_loop r b ex =
     (if ex > 0
      then powBI_loop (if ex AND 1 \<noteq> 0 then r * b else r) (b * b) (drop_bit 1 ex)
      else r)"
  by pat_completeness auto
termination
  by (relation "measure (\<lambda>(r, b, ex). nat ex)") (auto simp: drop_bit_eq_div)

declare powBI_loop.simps [simp del]

definition powBI :: "int \<Rightarrow> int \<Rightarrow> int" where
  "powBI a e = powBI_loop 1 a e"

text \<open>
  \<^verbatim>\<open>/^10\^([0-9]+)(?:([+\-])([0-9]+))?$/.exec(s)\<close>
  The result is the pair of \<open>m[1]\<close> and, when the optional group took part in the
  match, of \<open>m[2]\<close> and \<open>m[3]\<close>. The first group is followed by the end of the
  string or by a sign, so it can only be the longest run of digits after \<open>10^\<close>.
  The code units are \<open>1\<close> = 49, \<open>0\<close> = 48, \<open>^\<close> = 94, \<open>+\<close> = 43, \<open>-\<close> = 45.
\<close>

datatype sign = Plus | Minus

definition matchPow10 :: "jsstring \<Rightarrow> (jsstring \<times> (sign \<times> jsstring) option) option" where
  "matchPow10 s =
     (if take 3 s \<noteq> [49, 48, 94] then None
      else let k = takeWhile isDigit (drop 3 s); rest = dropWhile isDigit (drop 3 s) in
        if k = [] then None
        else case rest of
               [] \<Rightarrow> Some (k, None)
             | c # cs \<Rightarrow>
                 if (c = 43 \<or> c = 45) \<and> isDigitsOnly cs
                 then Some (k, Some (if c = 43 then Plus else Minus, cs))
                 else None)"

text \<open>
  The two copies of \<open>parseBigIntExpr\<close> (calculator script, lines 28-63; FactoriX,
  lines 36-58) differ in the language of the two error messages only, which are the
  two constructors of \<open>parse_error\<close>. \<open>Big bi a\<close> is
  \<open>{ok: true, mode: "big", big: bi, approxLog10: a}\<close>, and \<open>LogOnly k op c\<close> is
  \<open>{ok: true, mode: "logonly", big: null, approxLog10: Number(k), adjust: {op, c}}\<close>.
\<close>

datatype parse_error =
    EmptyInput          \<comment> \<open>\<open>"Empty input."\<close>\<close>
  | UnsupportedInput    \<comment> \<open>\<open>"Unsupported input. Use digits or 10^k (+/- c)."\<close>\<close>

datatype parsed =
    Failed parse_error
  | Big int int
  | LogOnly int "sign option" int

definition parseBigIntExpr :: "jsstring \<Rightarrow> parsed" where
  "parseBigIntExpr raw =
     (let s = removeSpaces (trim raw) in
      if length s = 0 then Failed EmptyInput
      else if isDigitsOnly s then Big (BigInt_of_digits s) (int (length s) - 1)
      else case matchPow10 s of
             Some (m1, m23) \<Rightarrow>
               (let k = BigInt_of_digits m1;
                    op = map_option fst m23;
                    c = (case m23 of Some (_, m3) \<Rightarrow> BigInt_of_digits m3 | None \<Rightarrow> 0)
                in if k > 2000 then LogOnly k op c
                   else let tenPow = powBI 10 k
                        in Big (case op of
                                  Some Plus \<Rightarrow> tenPow + c
                                | Some Minus \<Rightarrow> tenPow - c
                                | None \<Rightarrow> tenPow) k)
           | None \<Rightarrow> Failed UnsupportedInput)"

text \<open>
  The parser contract in the words of the specification: the accepted forms are
  (a) a nonempty sequence of decimal digits, or (b) \<open>10^k\<close> optionally followed by
  \<open>+c\<close> or \<open>-c\<close>, with \<open>k\<close> and \<open>c\<close> decimal digit sequences.
\<close>

definition digit_sequence :: "jsstring \<Rightarrow> bool" where
  "digit_sequence s \<longleftrightarrow> s \<noteq> [] \<and> (\<forall>c \<in> set s. isDigit c)"

definition spec_accepted :: "jsstring \<Rightarrow> bool" where
  "spec_accepted s \<longleftrightarrow>
     digit_sequence s
     \<or> (\<exists>k. digit_sequence k \<and>
           (s = [49, 48, 94] @ k
            \<or> (\<exists>c. digit_sequence c \<and>
                  (s = [49, 48, 94] @ k @ [43] @ c \<or> s = [49, 48, 94] @ k @ [45] @ c))))"

fun parse_ok :: "parsed \<Rightarrow> bool" where
  "parse_ok (Failed e) = False"
| "parse_ok (Big bi a) = True"
| "parse_ok (LogOnly k op c) = True"

section \<open>The sieve\<close>

text \<open>
  \<open>P|0\<close> is the conversion of a number holding an integer to a 32-bit signed
  integer. The inner loop of \<open>primesUpTo\<close>,
  \<^verbatim>\<open>for (let j = i * i; j <= n; j += i) sieve[j] = 1;\<close>
  is entered with \<open>i \<ge> 2\<close> only; the test \<open>0 < i\<close> below is there for the recursion
  to be total and is true at every call.
\<close>

definition toInt32 :: "int \<Rightarrow> int" where
  "toInt32 v = (v + 2 ^ 31) mod 2 ^ 32 - 2 ^ 31"

function mark_multiples :: "nat \<Rightarrow> nat \<Rightarrow> nat \<Rightarrow> bool list \<Rightarrow> bool list" where
  "mark_multiples n i j sieve =
     (if j \<le> n \<and> 0 < i then mark_multiples n i (j + i) (sieve[j := True]) else sieve)"
  by pat_completeness auto
termination
  by (relation "measure (\<lambda>(n, i, j, sieve). n + 1 - j)") auto

declare mark_multiples.simps [simp del]

function sieve_loop :: "nat \<Rightarrow> nat \<Rightarrow> bool list \<Rightarrow> bool list" where
  "sieve_loop n i sieve =
     (if i * i \<le> n
      then sieve_loop n (i + 1) (if \<not> sieve ! i then mark_multiples n i (i * i) sieve else sieve)
      else sieve)"
  by pat_completeness auto
termination
  by (relation "measure (\<lambda>(n, i, sieve). n + 1 - i * i)") auto

declare sieve_loop.simps [simp del]

definition primesUpTo :: "int \<Rightarrow> int list" where
  "primesUpTo P =
     (let n = nat (max 2 (toInt32 P));
          sieve = sieve_loop n 2 (replicate (n + 1) False)
      in map int (filter (\<lambda>i. \<not> sieve ! i) [2..<n + 1]))"

section \<open>Windowed search: the calculator script\<close>

text \<open>\<^verbatim>\<open>function* symmetricOffsets(T) { yield 0; for (let d = 1; d <= T; d++) { yield +d; yield -d; } }\<close>\<close>

definition symmetricOffsets :: "int \<Rightarrow> int list" where
  "symmetricOffsets T = 0 # concat (map (\<lambda>d. [d, - d]) [1..T])"

text \<open>
  The functions \<open>runPrimeNearX\<close>, \<open>runGoldbach\<close> and \<open>runFactorization\<close> write a
  text into \<open>outEl\<close>; \<open>report\<close> has one constructor for each of these texts, with
  the numbers the text shows. \<open>Unexpected e\<close> is the text written by the
  \<open>catch\<close> block.
\<close>

datatype report =
    ParseError parse_error       \<comment> \<open>\<open>"Error: " + parsed.err\<close>\<close>
  | LogPreview                   \<comment> \<open>\<open>"Log Mode Preview"\<close>, for \<open>mode === "logonly"\<close>\<close>
  | SafetyPreview int int        \<comment> \<open>\<open>"Log Mode Preview (safety)"\<close> with \<open>P\<close> and \<open>T\<close>\<close>
  | MustBeEven                   \<comment> \<open>\<open>"E must be even."\<close>\<close>
  | TooSmall                     \<comment> \<open>\<open>"N must be \<ge> 4."\<close>\<close>
  | PrimeFound int int int       \<comment> \<open>\<open>u\<close>, \<open>cand\<close>, \<open>tested\<close>\<close>
  | NoPrime int                  \<comment> \<open>\<open>"No prime within bounded correction."\<close> with \<open>tested\<close>\<close>
  | GoldbachFound int int int int  \<comment> \<open>\<open>t\<close>, \<open>a\<close>, \<open>b\<close>, \<open>tested\<close>\<close>
  | NoPair int                   \<comment> \<open>\<open>"No pair within bounded correction."\<close> with \<open>tested\<close>\<close>
  | FactorHit int int int int    \<comment> \<open>\<open>u\<close>, \<open>p\<close>, \<open>q\<close>, \<open>checked\<close>\<close>
  | NoFactorRing0 int            \<comment> \<open>\<open>"No factor within bounded correction at ring 0."\<close> with \<open>checked\<close>\<close>
  | NoFactor int                 \<comment> \<open>\<open>"No factor found within K rings."\<close> with \<open>checked\<close>\<close>
  | Unexpected error


text \<open>
  The scan of \<open>runPrimeNearX\<close> (lines 237-256). The counter \<open>checked\<close> of the
  source is written and never read; \<open>tested\<close> is the counter shown.
\<close>

fun primeScan :: "int \<Rightarrow> int list \<Rightarrow> int \<Rightarrow> int list \<Rightarrow> int \<Rightarrow> (error + report) option" where
  "primeScan X S mrRounds [] tested = Some (Inr (NoPrime tested))"
| "primeScan X S mrRounds (u # us) tested =
     (case admissibleSingle X u S of
        Inl e \<Rightarrow> Some (Inl e)
      | Inr False \<Rightarrow> primeScan X S mrRounds us tested
      | Inr True \<Rightarrow>
          (case isProbablePrime (X + u) mrRounds of
             None \<Rightarrow> None
           | Some (Inl e) \<Rightarrow> Some (Inl e)
           | Some (Inr True) \<Rightarrow> Some (Inr (PrimeFound u (X + u) (tested + 1)))
           | Some (Inr False) \<Rightarrow>
               if tested + 1 \<ge> 3 then Some (Inr (NoPrime (tested + 1)))
               else primeScan X S mrRounds us (tested + 1)))"

text \<open>
  \<open>P\<close> and \<open>T\<close> are computed in floating point from \<open>c1\<close>, \<open>c2\<close> and
  \<open>lnBigIntApprox\<close>. The model takes the integer values of
  \<^verbatim>\<open>Math.max(5, Math.floor(c1 * lnN))\<close> and \<^verbatim>\<open>Math.max(8, Math.floor(c2 * (lnN * lnN)))\<close>
  as the parameters \<open>Pauto\<close> and \<open>Tauto\<close>, in place of \<open>c1\<close> and \<open>c2\<close>. An
  override is a number holding an integer, or \<open>NaN\<close>, which is falsy as 0 is and
  is passed as 0.
\<close>

definition catch :: "(error + report) option \<Rightarrow> report option" where
  "catch r = (case r of None \<Rightarrow> None | Some (Inl e) \<Rightarrow> Some (Unexpected e) | Some (Inr x) \<Rightarrow> Some x)"

definition runPrimeNearX :: "jsstring \<Rightarrow> int \<Rightarrow> int \<Rightarrow> int \<Rightarrow> int \<Rightarrow> int \<Rightarrow> report option" where
  "runPrimeNearX rawX Pauto Tauto Poverride Toverride mrRounds =
     (case parseBigIntExpr rawX of
        Failed e \<Rightarrow> Some (ParseError e)
      | LogOnly k op c \<Rightarrow> Some LogPreview
      | Big X a \<Rightarrow>
          (let P = (if Poverride \<noteq> 0 then max 3 (toInt32 Poverride) else Pauto);
               T = (if Toverride \<noteq> 0 then max 2 (toInt32 Toverride) else Tauto)
           in if Toverride = 0 \<and> T > 100000 then Some (SafetyPreview P T)
              else catch (primeScan X (primesUpTo P) mrRounds (symmetricOffsets T) 0)))"

text \<open>The scan of \<open>runGoldbach\<close> (lines 310-329).\<close>

fun goldbachScan :: "int \<Rightarrow> int list \<Rightarrow> int \<Rightarrow> int list \<Rightarrow> int \<Rightarrow> (error + report) option" where
  "goldbachScan x S mrRounds [] tested = Some (Inr (NoPair tested))"
| "goldbachScan x S mrRounds (t # ts) tested =
     (case admissibleGoldbach x t S of
        Inl e \<Rightarrow> Some (Inl e)
      | Inr False \<Rightarrow> goldbachScan x S mrRounds ts tested
      | Inr True \<Rightarrow>
          (case isProbablePrime (x - t) mrRounds of
             None \<Rightarrow> None
           | Some (Inl e) \<Rightarrow> Some (Inl e)
           | Some (Inr pa) \<Rightarrow>
               (case (if pa then isProbablePrime (x + t) mrRounds else Some (Inr False)) of
                  None \<Rightarrow> None
                | Some (Inl e) \<Rightarrow> Some (Inl e)
                | Some (Inr True) \<Rightarrow> Some (Inr (GoldbachFound t (x - t) (x + t) (tested + 1)))
                | Some (Inr False) \<Rightarrow>
                    if tested + 1 \<ge> 3 then Some (Inr (NoPair (tested + 1)))
                    else goldbachScan x S mrRounds ts (tested + 1))))"

definition runGoldbach :: "jsstring \<Rightarrow> int \<Rightarrow> int \<Rightarrow> int \<Rightarrow> int \<Rightarrow> int \<Rightarrow> report option" where
  "runGoldbach rawE Pauto Tauto Poverride Toverride mrRounds =
     (case parseBigIntExpr rawE of
        Failed e \<Rightarrow> Some (ParseError e)
      | LogOnly k op c \<Rightarrow> Some LogPreview
      | Big E a \<Rightarrow>
          if E smod 2 \<noteq> 0 then Some MustBeEven
          else
           (let x = E sdiv 2;
                P = (if Poverride \<noteq> 0 then max 3 (toInt32 Poverride) else Pauto);
                T = (if Toverride \<noteq> 0 then max 2 (toInt32 Toverride) else Tauto)
            in if Toverride = 0 \<and> T > 100000 then Some (SafetyPreview P T)
               else catch (goldbachScan x (primesUpTo P) mrRounds (symmetricOffsets T) 0)))"

text \<open>
  \<open>runFactorization\<close> (lines 342-441). \<open>passesPrefilter\<close> is its local function,
  closed over \<open>usePrefilter\<close> and \<open>S\<close>.
\<close>

fun passesPrefilter_loop :: "int \<Rightarrow> int list \<Rightarrow> error + bool" where
  "passesPrefilter_loop y [] = Inr True"
| "passesPrefilter_loop y (sb # S) =
     (if y = sb then Inr True
      else if sb = 0 then Inl RangeError
      else if y smod sb = 0 then Inr False
      else passesPrefilter_loop y S)"

definition passesPrefilter :: "bool \<Rightarrow> int list \<Rightarrow> int \<Rightarrow> error + bool" where
  "passesPrefilter usePrefilter S y =
     (if \<not> usePrefilter then Inr True
      else if y < 2 then Inr False
      else passesPrefilter_loop y S)"

text \<open>
  \<^verbatim>\<open>if (passesPrefilter(y)) { checked++; if (N % y === 0n) { ... return; } }\<close>
  for \<open>y = a\<close> and for \<open>y = b\<close>: the result is the hit, if any, and the new value of
  \<open>checked\<close>.
\<close>

definition testCandidate :: "bool \<Rightarrow> int list \<Rightarrow> int \<Rightarrow> int \<Rightarrow> int \<Rightarrow> error + (bool \<times> int)" where
  "testCandidate usePrefilter S N y checked =
     (case passesPrefilter usePrefilter S y of
        Inl e \<Rightarrow> Inl e
      | Inr False \<Rightarrow> Inr (False, checked)
      | Inr True \<Rightarrow>
          if y = 0 then Inl RangeError
          else Inr (N smod y = 0, checked + 1))"

text \<open>
  The test of line 388 (and of line 186 of FactoriX) that skips an offset:
  \<^verbatim>\<open>if (ring > 0 && Math.abs(u) < (ring - 1) * T) continue; // only new ring\<close>
\<close>

definition skipped :: "int \<Rightarrow> int \<Rightarrow> int \<Rightarrow> bool" where
  "skipped ring T u \<longleftrightarrow> ring > 0 \<and> \<bar>u\<bar> < (ring - 1) * T"

text \<open>
  The offsets of ring \<open>ring\<close> that get past this test, in the order of the
  generator: the offsets whose candidates the ring goes on to examine.
\<close>

definition ringOffsets :: "int \<Rightarrow> int \<Rightarrow> int list" where
  "ringOffsets ring T = filter (\<lambda>u. \<not> skipped ring T u) (symmetricOffsets (ring * T))"

text \<open>
  The body of the loop over the rings: one pass over \<open>symmetricOffsets(R)\<close>.
  \<open>Inr (Inl r)\<close> is a return with the report \<open>r\<close>, \<open>Inr (Inr checked)\<close> is the end
  of the ring.
\<close>

fun ringScan :: "int \<Rightarrow> int \<Rightarrow> int list \<Rightarrow> bool \<Rightarrow> int \<Rightarrow> int \<Rightarrow> int list \<Rightarrow> int \<Rightarrow> error + (report + int)" where
  "ringScan N X S usePrefilter T ring [] checked = Inr (Inr checked)"
| "ringScan N X S usePrefilter T ring (u # us) checked =
     (if skipped ring T u then ringScan N X S usePrefilter T ring us checked
      else case testCandidate usePrefilter S N (X + u) checked of
             Inl e \<Rightarrow> Inl e
           | Inr (True, c1) \<Rightarrow> Inr (Inl (FactorHit u (X + u) (N sdiv (X + u)) c1))
           | Inr (False, c1) \<Rightarrow>
               (case (if u \<noteq> 0 then testCandidate usePrefilter S N (X - u) c1 else Inr (False, c1)) of
                  Inl e \<Rightarrow> Inl e
                | Inr (True, c2) \<Rightarrow> Inr (Inl (FactorHit (- u) (X - u) (N sdiv (X - u)) c2))
                | Inr (False, c2) \<Rightarrow>
                    if ring = 0 \<and> c2 \<ge> 3 then Inr (Inl (NoFactorRing0 c2))
                    else ringScan N X S usePrefilter T ring us c2))"

text \<open>\<^verbatim>\<open>for (let ring = 0; ring <= K; ring++) { const R = ring * T; ... }\<close>\<close>

function ringsLoop :: "int \<Rightarrow> int \<Rightarrow> int list \<Rightarrow> bool \<Rightarrow> int \<Rightarrow> int \<Rightarrow> int \<Rightarrow> int \<Rightarrow> error + report" where
  "ringsLoop N X S usePrefilter T K ring checked =
     (if ring \<le> K
      then case ringScan N X S usePrefilter T ring (symmetricOffsets (ring * T)) checked of
             Inl e \<Rightarrow> Inl e
           | Inr (Inl r) \<Rightarrow> Inr r
           | Inr (Inr c) \<Rightarrow> ringsLoop N X S usePrefilter T K (ring + 1) c
      else Inr (NoFactor checked))"
  by pat_completeness auto
termination
  by (relation "measure (\<lambda>(N, X, S, usePrefilter, T, K, ring, checked). nat (K + 1 - ring))") auto

declare ringsLoop.simps [simp del]

definition runFactorization :: "jsstring \<Rightarrow> int \<Rightarrow> int \<Rightarrow> int \<Rightarrow> bool \<Rightarrow> int \<Rightarrow> report option" where
  "runFactorization rawN Pauto Tauto K usePrefilter mrRounds =
     (case parseBigIntExpr rawN of
        Failed e \<Rightarrow> Some (ParseError e)
      | LogOnly k op c \<Rightarrow> Some LogPreview
      | Big N a \<Rightarrow>
          if N < 4 then Some TooSmall
          else catch (Some (case isqrt N of
                              Inl e \<Rightarrow> Inl e
                            | Inr X \<Rightarrow> ringsLoop N X (primesUpTo Pauto) usePrefilter Tauto K 0 0)))"

section \<open>Windowed search: FactoriX\<close>

text \<open>
  \<open>factorize\<close> (lines 149-217) is an \<open>async\<close> function. Other code runs only while
  it is suspended at an \<^verbatim>\<open>await pause(0)\<close>, and that code (the Stop and Reset
  handlers, another Run) can write the global \<open>state\<close>. The environment is the
  function \<open>env\<close>: \<open>env k\<close> is the global \<open>state\<close> as \<open>factorize\<close> reads it after
  \<open>k\<close> of its awaits have completed. The calls of \<open>addLine\<close> only append to the log
  and are left out.
\<close>

datatype phase = Even | Small | Window int int int   \<comment> \<open>\<open>ring\<close>, \<open>u\<close>, \<open>checked\<close>\<close>

datatype outcome =
    Factor int int phase      \<comment> \<open>\<open>{ok: true, p, q, phase, ...}\<close>\<close>
  | Aborted                   \<comment> \<open>\<open>{ok: false, abort: true}\<close>\<close>
  | NotFound int              \<comment> \<open>\<open>{ok: false, msg, checked}\<close>\<close>


text \<open>
  \<open>quickSmallFactor\<close> (lines 138-146) runs without suspension, so it reads one
  \<open>state\<close>; \<open>primesUpTo\<close> never returns an empty list.
\<close>

fun quickSmallFactor_loop :: "state \<Rightarrow> int \<Rightarrow> int list \<Rightarrow> error + int option" where
  "quickSmallFactor_loop st N [] = Inr None"
| "quickSmallFactor_loop st N (pb # smalls) =
     (if abort st then Inr None
      else if pb = 0 then Inl RangeError
      else if N smod pb = 0 then Inr (Some pb)
      else quickSmallFactor_loop st N smalls)"

definition quickSmallFactor :: "state \<Rightarrow> int \<Rightarrow> int \<Rightarrow> error + int option" where
  "quickSmallFactor st N bound = quickSmallFactor_loop st N (primesUpTo bound)"

text \<open>
  One pass over \<open>symmetricOffsets(R)\<close> (lines 184-213), with the number \<open>k\<close> of
  awaits so far and the counters \<open>checked\<close> and \<open>steps\<close>. \<open>Inr (Inl r)\<close> is a
  return of \<open>r\<close>, \<open>Inr (Inr (k, checked))\<close> is the end of the ring.
\<close>

fun windowScan ::
  "(nat \<Rightarrow> state) \<Rightarrow> int \<Rightarrow> int \<Rightarrow> int list \<Rightarrow> int \<Rightarrow> bool \<Rightarrow> int \<Rightarrow> int list \<Rightarrow> nat \<Rightarrow> int \<Rightarrow> int
   \<Rightarrow> error + (outcome + nat \<times> int)" where
  "windowScan env N x S T prefilter ring [] k checked steps = Inr (Inr (k, checked))"
| "windowScan env N x S T prefilter ring (u # us) k checked steps =
     (if abort (env k) then Inr (Inl Aborted)
      else if skipped ring T u then windowScan env N x S T prefilter ring us k checked steps
      else case (if prefilter then admissibleAroundSqrt (env k) x u S else Inr True) of
             Inl e \<Rightarrow> Inl e
           | Inr False \<Rightarrow> windowScan env N x S T prefilter ring us k checked steps
           | Inr True \<Rightarrow>
               if x + u = 0 then Inl RangeError
               else if N smod (x + u) = 0
               then Inr (Inl (Factor (x + u) (N sdiv (x + u)) (Window ring u (checked + 1))))
               else if u \<noteq> 0 \<and> x - u = 0 then Inl RangeError
               else if u \<noteq> 0 \<and> N smod (x - u) = 0
               then Inr (Inl (Factor (x - u) (N sdiv (x - u)) (Window ring (- u) (checked + 2))))
               else windowScan env N x S T prefilter ring us
                      (if (steps + 1) mod 5000 = 0 then k + 1 else k)
                      (if u \<noteq> 0 then checked + 2 else checked + 1)
                      (steps + 1))"

text \<open>\<^verbatim>\<open>for (let ring = 0; ring <= K; ring++) { if (state.abort) return ...; const R = ring * T; ... }\<close>\<close>

function windowRings ::
  "(nat \<Rightarrow> state) \<Rightarrow> int \<Rightarrow> int \<Rightarrow> int list \<Rightarrow> int \<Rightarrow> int \<Rightarrow> bool \<Rightarrow> int \<Rightarrow> nat \<Rightarrow> int \<Rightarrow> error + outcome" where
  "windowRings env N x S T K prefilter ring k checked =
     (if ring \<le> K
      then if abort (env k) then Inr Aborted
           else case windowScan env N x S T prefilter ring (symmetricOffsets (ring * T)) k checked 0 of
                  Inl e \<Rightarrow> Inl e
                | Inr (Inl r) \<Rightarrow> Inr r
                | Inr (Inr (k', c)) \<Rightarrow> windowRings env N x S T K prefilter (ring + 1) k' c
      else Inr (NotFound checked))"
  by pat_completeness auto
termination
  by (relation "measure (\<lambda>(env, N, x, S, T, K, prefilter, ring, k, checked). nat (K + 1 - ring))") auto

declare windowRings.simps [simp del]

text \<open>
  The parameter \<open>P\<close> is the integer value of
  \<^verbatim>\<open>Math.max(5, Math.floor(1.6 * lnBigIntApprox(N)))\<close>, computed in floating point.
  \<open>B\<close>, \<open>T\<close> and \<open>K\<close> are numbers holding integers (\<open>getNum\<close>); \<open>mrRounds\<close> is
  not used by the body.
\<close>

definition window :: "(nat \<Rightarrow> state) \<Rightarrow> int \<Rightarrow> int \<Rightarrow> int \<Rightarrow> bool \<Rightarrow> int \<Rightarrow> nat \<Rightarrow> error + outcome" where
  "window env N T K prefilter P k =
     (case isqrt N of
        Inl e \<Rightarrow> Inl e
      | Inr x \<Rightarrow> windowRings env N x (primesUpTo P) T K prefilter 0 (k + 1) 0)"

definition factorize ::
  "(nat \<Rightarrow> state) \<Rightarrow> int \<Rightarrow> int \<Rightarrow> int \<Rightarrow> int \<Rightarrow> bool \<Rightarrow> int \<Rightarrow> int \<Rightarrow> error + outcome" where
  "factorize env N B T K prefilter mrRounds P =
     (if N smod 2 = 0 then Inr (Factor 2 (N sdiv 2) Even)
      else if B > 0
      then (case quickSmallFactor (env 1) N (max 3 (toInt32 B)) of
              Inl e \<Rightarrow> Inl e
            | Inr sf \<Rightarrow>
                if abort (env 1) then Inr Aborted
                else case sf of
                       Some p \<Rightarrow> Inr (Factor p (N sdiv p) Small)
                     | None \<Rightarrow> window env N T K prefilter P 1)
      else window env N T K prefilter P 0)"

section \<open>Full factorization: FactoriXUPE\<close>

text \<open>\<^verbatim>\<open>function gcd(a,b){ while (b){ const t=a%b; a=b; b=t; } return a; }\<close>\<close>

function gcdBI :: "int \<Rightarrow> int \<Rightarrow> int" where
  "gcdBI a b = (if b \<noteq> 0 then gcdBI b (a smod b) else a)"
  by pat_completeness auto
termination
proof (relation "measure (\<lambda>(a, b). nat \<bar>b\<bar>)")
  show "wf (measure (\<lambda>(a, b). nat \<bar>b\<bar>))" by simp
next
  fix a b :: int
  assume "b \<noteq> 0"
  then have "a smod b \<in> {- \<bar>b\<bar> + 1..\<bar>b\<bar> - 1}" by (rule smod_int_range)
  then have "\<bar>a smod b\<bar> < \<bar>b\<bar>" by auto
  then show "((b, a smod b), (a, b)) \<in> measure (\<lambda>(a, b). nat \<bar>b\<bar>)" by simp
qed

declare gcdBI.simps [simp del]

text \<open>
  \<open>fermatFactor\<close> (lines 344-357), on the Newton \<open>isqrt\<close>. The loop counter \<open>i\<close>
  and \<open>maxSteps\<close> are numbers holding integers.
\<close>

function fermat_loop :: "int \<Rightarrow> int \<Rightarrow> int \<Rightarrow> int \<Rightarrow> (error + (int \<times> int) option) option" where
  "fermat_loop n a i maxSteps =
     (if i < maxSteps
      then (case isqrt_newton (a * a - n) of
              None \<Rightarrow> None
            | Some (Inl e) \<Rightarrow> Some (Inl e)
            | Some (Inr b) \<Rightarrow>
                if b * b = a * a - n \<and> a - b > 1 \<and> a + b > 1 \<and> (a - b) * (a + b) = n
                then Some (Inr (Some (a - b, a + b)))
                else fermat_loop n (a + 1) (i + 1) maxSteps)
      else Some (Inr None))"
  by pat_completeness auto
termination
  by (relation "measure (\<lambda>(n, a, i, maxSteps). nat (maxSteps - i))") auto

declare fermat_loop.simps [simp del]

definition fermatFactor :: "int \<Rightarrow> int \<Rightarrow> (error + (int \<times> int) option) option" where
  "fermatFactor n maxSteps =
     (case isqrt_newton n of
        None \<Rightarrow> None
      | Some (Inl e) \<Rightarrow> Some (Inl e)
      | Some (Inr a) \<Rightarrow> fermat_loop n (if a * a < n then a + 1 else a) 0 maxSteps)"

text \<open>
  \<open>rhoBrent\<close> (lines 360-390). \<open>Math.random\<close> is the environment: \<open>rnd j\<close> is the
  integer \<^verbatim>\<open>Math.floor(Math.random()*1e9)\<close> of the \<open>j\<close>-th call, and the number of
  calls made so far is passed along. \<open>rand\<close> is the local function
  \<^verbatim>\<open>() => (BigInt(Math.floor(Math.random()*1e9)) % (n-3n)) + 2n\<close>.
\<close>

definition rand :: "(nat \<Rightarrow> int) \<Rightarrow> int \<Rightarrow> nat \<Rightarrow> error + int" where
  "rand rnd n j = (if n - 3 = 0 then Inl RangeError else Inr (rnd j smod (n - 3) + 2))"

text \<open>\<^verbatim>\<open>for (let i=0n; i<r; i++) y = (y*y + c) % n;\<close>\<close>

function advance :: "int \<Rightarrow> int \<Rightarrow> int \<Rightarrow> int \<Rightarrow> int \<Rightarrow> int" where
  "advance n c r i y = (if i < r then advance n c r (i + 1) ((y * y + c) smod n) else y)"
  by pat_completeness auto
termination
  by (relation "measure (\<lambda>(n, c, r, i, y). nat (r - i))") auto

declare advance.simps [simp del]

text \<open>
  \<^verbatim>\<open>
  for (let i=0n; i<lim; i++){
    y = (y*y + c) % n;
    const diff = x > y ? x - y : y - x;
    q = (q * (diff % n)) % n;
  }
  \<close>
\<close>

function accumulate :: "int \<Rightarrow> int \<Rightarrow> int \<Rightarrow> int \<Rightarrow> int \<Rightarrow> int \<Rightarrow> int \<Rightarrow> int \<times> int" where
  "accumulate n c x lim i y q =
     (if i < lim
      then (let y' = (y * y + c) smod n;
                diff = (if x > y' then x - y' else y' - x)
            in accumulate n c x lim (i + 1) y' ((q * (diff smod n)) smod n))
      else (y, q))"
  by pat_completeness auto
termination
  by (relation "measure (\<lambda>(n, c, x, lim, i, y, q). nat (lim - i))") auto

declare accumulate.simps [simp del]

text \<open>
  \<^verbatim>\<open>
  while (k < r && g === 1n){
    ys = y;
    const lim = (m < (r-k) ? m : (r-k));
    for (...) { ... }
    g = gcd(q, n);
    k += m;
  }
  \<close>
  with \<open>m = 1n<<6n\<close>, which is 64. The result is \<open>(y, ys, q, g)\<close>.
\<close>

function brent_inner :: "int \<Rightarrow> int \<Rightarrow> int \<Rightarrow> int \<Rightarrow> int \<Rightarrow> int \<Rightarrow> int \<Rightarrow> int \<Rightarrow> int \<Rightarrow> int \<times> int \<times> int \<times> int" where
  "brent_inner n c x r k y ys q g =
     (if k < r \<and> g = 1
      then (let lim = (if 64 < r - k then 64 else r - k);
                (y', q') = accumulate n c x lim 0 y q
            in brent_inner n c x r (k + 64) y' y q' (gcdBI q' n))
      else (y, ys, q, g))"
  by pat_completeness auto
termination
  by (relation "measure (\<lambda>(n, c, x, r, k, y, ys, q, g). nat (r - k))") auto

declare brent_inner.simps [simp del]

text \<open>
  \<^verbatim>\<open>while (g === 1n){ x = y; for (...) y = (y*y + c) % n; let k = 0n; while (...) {...} r <<= 1n; }\<close>
  The result is \<open>(x, ys, g)\<close>, the variables read after the loop.
\<close>

partial_function (option) brent_outer ::
  "int \<Rightarrow> int \<Rightarrow> int \<Rightarrow> int \<Rightarrow> int \<Rightarrow> int \<Rightarrow> int \<Rightarrow> int \<Rightarrow> (int \<times> int \<times> int) option" where
  "brent_outer n c r y x ys q g =
     (if g = 1
      then (case brent_inner n c y r 0 (advance n c r 0 y) ys q g of
              (y', ys', q', g') \<Rightarrow> brent_outer n c (push_bit 1 r) y' y ys' q' g')
      else Some (x, ys, g))"

declare brent_outer.simps [code]

text \<open>
  \<^verbatim>\<open>do{ ys = (ys*ys + c) % n; const diff = x > ys ? x - ys : ys - x; g = gcd(diff, n); } while (g === 1n);\<close>
\<close>

partial_function (option) backtrack :: "int \<Rightarrow> int \<Rightarrow> int \<Rightarrow> int \<Rightarrow> int option" where
  "backtrack n c x ys =
     (let ys' = (ys * ys + c) smod n;
          g = gcdBI (if x > ys' then x - ys' else ys' - x) n
      in if g = 1 then backtrack n c x ys' else Some g)"

declare backtrack.simps [code]

text \<open>The result of \<open>rhoBrent\<close> is the divisor with the new count of calls of \<open>Math.random\<close>.\<close>

definition rhoBrent :: "(nat \<Rightarrow> int) \<Rightarrow> int \<Rightarrow> nat \<Rightarrow> (error + int \<times> nat) option" where
  "rhoBrent rnd n j =
     (if n smod 2 = 0 then Some (Inr (2, j))
      else case rand rnd n j of
             Inl e \<Rightarrow> Some (Inl e)
           | Inr y \<Rightarrow>
               (case rand rnd n (j + 1) of
                  Inl e \<Rightarrow> Some (Inl e)
                | Inr c \<Rightarrow>
                    (case brent_outer n c 1 y 0 0 1 1 of
                       None \<Rightarrow> None
                     | Some (x, ys, g) \<Rightarrow>
                         if g = n
                         then (case backtrack n c x ys of
                                 None \<Rightarrow> None
                               | Some g' \<Rightarrow> Some (Inr (g', j + 2)))
                         else Some (Inr (g, j + 2)))))"

text \<open>\<^verbatim>\<open>let d = n; while (d === n) d = rhoBrent(n);\<close> The loop is entered with \<open>d = n\<close>.\<close>

partial_function (option) retry :: "(nat \<Rightarrow> int) \<Rightarrow> int \<Rightarrow> nat \<Rightarrow> (error + int \<times> nat) option" where
  "retry rnd n j =
     Option.bind (rhoBrent rnd n j)
       (\<lambda>r. case r of
               Inl e \<Rightarrow> Some (Inl e)
             | Inr (d, j') \<Rightarrow> if d = n then retry rnd n j' else Some (Inr (d, j')))"

declare retry.simps [code]

text \<open>
  \<open>factor\<close> (lines 393-407) appends to the array \<open>out\<close>; the model returns the new
  contents of \<open>out\<close> with the count of calls of \<open>Math.random\<close>.
  \<open>firstDivisor\<close> is the loop over the small primes up to its \<open>return\<close>.
\<close>

fun firstDivisor :: "int \<Rightarrow> int list \<Rightarrow> int option" where
  "firstDivisor n [] = None"
| "firstDivisor n (p # ps) = (if n smod p = 0 then Some p else firstDivisor n ps)"

definition andThen ::
  "(error + int list \<times> nat) option \<Rightarrow> (int list \<Rightarrow> nat \<Rightarrow> (error + int list \<times> nat) option)
   \<Rightarrow> (error + int list \<times> nat) option" where
  "andThen m f =
     Option.bind m (\<lambda>r. case r of Inl e \<Rightarrow> Some (Inl e) | Inr (out, j) \<Rightarrow> f out j)"

lemma andThen_mono [partial_function_mono]:
  assumes "mono_option B" and "\<And>out j. mono_option (\<lambda>f. C out j f)"
  shows "mono_option (\<lambda>f. andThen (B f) (\<lambda>out j. C out j f))"
  unfolding andThen_def
proof (rule bind_mono [OF assms(1)])
  fix y :: "error + int list \<times> nat"
  show "mono_option (\<lambda>f. case y of Inl e \<Rightarrow> Some (Inl e) | Inr (out, j) \<Rightarrow> C out j f)"
  proof (cases y)
    case (Inl e)
    then show ?thesis by (simp add: option.const_mono)
  next
    case (Inr p)
    then show ?thesis using assms(2) by (cases p) simp
  qed
qed

text \<open>
  \<open>factor\<close> calls itself twice in a row and nothing in its text bounds the
  recursion, so it is a partial function on the results of the runs that return.
\<close>

partial_function (option) factor ::
  "(nat \<Rightarrow> int) \<Rightarrow> int \<Rightarrow> int list \<Rightarrow> nat \<Rightarrow> (error + int list \<times> nat) option" where
  "factor rnd n out j =
     (if n = 1 then Some (Inr (out, j))
      else case isPrime64 n of
             None \<Rightarrow> None
           | Some (Inl e) \<Rightarrow> Some (Inl e)
           | Some (Inr prime) \<Rightarrow>
               if prime then Some (Inr (out @ [n], j))
               else case firstDivisor n [2, 3, 5, 7, 11, 13, 17, 19, 23, 29, 31, 37, 41, 43, 47] of
                  Some p \<Rightarrow>
                    andThen (factor rnd p out j) (\<lambda>out' j'. factor rnd (n sdiv p) out' j')
                | None \<Rightarrow>
                    (case fermatFactor n 2000000 of
                       None \<Rightarrow> None
                     | Some (Inl e) \<Rightarrow> Some (Inl e)
                     | Some (Inr (Some (p, q))) \<Rightarrow>
                         andThen (factor rnd p out j) (\<lambda>out' j'. factor rnd q out' j')
                     | Some (Inr None) \<Rightarrow>
                         (case retry rnd n j of
                            None \<Rightarrow> None
                          | Some (Inl e) \<Rightarrow> Some (Inl e)
                          | Some (Inr (d, j')) \<Rightarrow>
                              andThen (factor rnd d out j')
                                (\<lambda>out' j''. factor rnd (n sdiv d) out' j''))))"

declare factor.simps [code]

definition factorizeBigInt :: "(nat \<Rightarrow> int) \<Rightarrow> int \<Rightarrow> nat \<Rightarrow> (error + int list \<times> nat) option" where
  "factorizeBigInt rnd N j = factor rnd N [] j"

text \<open>
  The relation between the contents of \<open>out\<close> before and after a call of
  \<open>factor\<close> on \<open>n\<close> that the invariant of the specification states: the entries
  appended have product \<open>n\<close> and each of them passes \<open>isPrime64\<close>.
\<close>

definition factored :: "int \<Rightarrow> int list \<Rightarrow> int list \<Rightarrow> bool" where
  "factored n out out' \<longleftrightarrow>
     (\<exists>fs. out' = out @ fs \<and> prod_list fs = n \<and> (\<forall>p \<in> set fs. isPrime64 p = Some (Inr True)))"

section \<open>Properties of modular exponentiation\<close>

lemma smod_nonneg_range: "0 \<le> a \<Longrightarrow> 0 < m \<Longrightarrow> 0 \<le> a smod m \<and> a smod m < (m::int)"
  by (simp add: smod_mod_positive)

lemma modPow_loop_range:
  "0 \<le> b \<Longrightarrow> 0 \<le> r \<Longrightarrow> r < m \<Longrightarrow> 0 \<le> modPow_loop b e r m \<and> modPow_loop b e r m < m"
proof (induction b e r m rule: modPow_loop.induct)
  case (1 b e r m)
  show ?case
  proof (cases "e > 0")
    case False
    then show ?thesis using "1.prems" by (simp add: modPow_loop.simps [of b e r m])
  next
    case True
    have m: "0 < m" using "1.prems" by simp
    have b': "0 \<le> (b * b) smod m" using "1.prems" m by (simp add: smod_mod_positive)
    let ?r = "if e AND 1 \<noteq> 0 then (r * b) smod m else r"
    have r': "0 \<le> ?r \<and> ?r < m" using "1.prems" m by (simp add: smod_mod_positive)
    have "0 \<le> modPow_loop ((b * b) smod m) (drop_bit 1 e) ?r m
        \<and> modPow_loop ((b * b) smod m) (drop_bit 1 e) ?r m < m"
      using "1.IH" [OF True b'] r' by blast
    then show ?thesis using True by (simp add: modPow_loop.simps [of b e r m])
  qed
qed

lemma modPow_loop_range_pos:
  "0 \<le> b \<Longrightarrow> 0 \<le> r \<Longrightarrow> 0 < m \<Longrightarrow> 0 < e \<Longrightarrow> 0 \<le> modPow_loop b e r m \<and> modPow_loop b e r m < m"
proof (induction b e r m rule: modPow_loop.induct)
  case (1 b e r m)
  have m: "0 < m" using "1.prems" by simp
  have e: "0 < e" using "1.prems" by simp
  have b': "0 \<le> (b * b) smod m" using "1.prems" m by (simp add: smod_mod_positive)
  let ?r = "if e AND 1 \<noteq> 0 then (r * b) smod m else r"
  have r0: "0 \<le> ?r" using "1.prems" m by (simp add: smod_mod_positive)
  have unf: "modPow_loop b e r m = modPow_loop ((b * b) smod m) (drop_bit 1 e) ?r m"
    using e by (simp add: modPow_loop.simps [of b e r m])
  show ?case
  proof (cases "e AND 1 \<noteq> 0")
    case True
    then have "?r < m" using "1.prems" m by (simp add: smod_mod_positive)
    then show ?thesis using modPow_loop_range [OF b' r0] unf by presburger
  next
    case False
    then have "even e" by (simp add: and_one_eq mod_2_eq_odd)
    then have "0 < drop_bit 1 e" using e by (auto simp: drop_bit_eq_div elim: evenE)
    then show ?thesis using "1.IH" [OF e b' r0 m] unf by presburger
  qed
qed

text \<open>
  Claim C7, as amended. For every base \<open>\<ge> 0\<close>, every exponent \<open>\<ge> 0\<close> and every modulus
  \<open>\<ge> 1\<close>, provided the exponent is positive or the modulus is at least 2,
  \<open>modPow\<close> returns a value in the half-open interval from 0 to the modulus.
\<close>

theorem modPow_range:
  assumes "0 \<le> base" and "0 \<le> exp" and "1 \<le> m" and "0 < exp \<or> 2 \<le> m"
  shows "\<exists>r. modPow base exp m = Inr r \<and> 0 \<le> r \<and> r < m"
proof -
  have m: "0 < m" using assms by simp
  have b: "0 \<le> base smod m" using assms m by (simp add: smod_mod_positive)
  have "0 \<le> modPow_loop (base smod m) exp 1 m \<and> modPow_loop (base smod m) exp 1 m < m"
  proof (cases "0 < exp")
    case True
    then show ?thesis using modPow_loop_range_pos [OF b _ m True, of 1] by simp
  next
    case False
    then have "2 \<le> m" using assms by simp
    then show ?thesis using modPow_loop_range [OF b, of 1 m exp] by simp
  qed
  then show ?thesis using m by (simp add: modPow_def)
qed

theorem modPow_range_witness:
  "(0::int) \<le> 3 \<and> (0::int) \<le> 5 \<and> (1::int) \<le> 7 \<and> ((0::int) < 5 \<or> (2::int) \<le> 7)
   \<and> (\<exists>r. modPow 3 5 7 = Inr r \<and> 0 \<le> r \<and> r < 7)"
  using modPow_range [of 3 5 7] by simp

text \<open>
  Claim C7 as stated fails in two ways. With exponent 0 the loop body never runs and
  the initial \<open>r = 1n\<close> is returned unreduced, which is outside the interval for
  modulus 1. A negative base keeps its sign under \<open>%\<close>, so the result can be negative.
\<close>

theorem modPow_range_counterexample:
  "modPow 5 0 1 = Inr 1 \<and> \<not> ((1::int) < 1) \<and> modPow (- 1) 1 5 = Inr (- 1) \<and> \<not> ((0::int) \<le> - 1)"
  by (simp add: modPow_def modPow_loop.simps signed_modulo_int_def drop_bit_eq_div)

section \<open>Properties of the integer square roots\<close>

lemma binary_digits_pos: "0 < binary_digits n"
  by (subst binary_digits.simps) simp

lemma binary_digits_bounds:
  "1 \<le> n \<Longrightarrow> 2 ^ (binary_digits n - 1) \<le> n \<and> n < 2 ^ binary_digits n"
proof (induction n rule: binary_digits.induct)
  case (1 n)
  show ?case
  proof (cases "n < 2")
    case True
    then have "n = 1" using "1.prems" by simp
    then show ?thesis by (simp add: binary_digits.simps [of 1])
  next
    case False
    then have h: "1 \<le> n div 2" by simp
    have IH: "2 ^ (binary_digits (n div 2) - 1) \<le> n div 2 \<and> n div 2 < 2 ^ binary_digits (n div 2)"
      using "1.IH" [OF False h] .
    have unf: "binary_digits n = Suc (binary_digits (n div 2))"
      using False by (simp add: binary_digits.simps [of n])
    obtain k where k: "binary_digits (n div 2) = Suc k"
      using binary_digits_pos [of "n div 2"] by (cases "binary_digits (n div 2)") auto
    have "2 * (n div 2) \<le> n" "n < 2 * (n div 2) + 2" by presburger+
    then have "2 * 2 ^ k \<le> n" "n < 2 * 2 ^ Suc k" using IH k by simp_all
    then show ?thesis using unf k by simp
  qed
qed

lemma isqrt_loop_zero: "isqrt_loop n x0 0 = x0"
  by (simp add: isqrt_loop.simps [of n x0 0])

lemma isqrt_loop_correct:
  "x0 * x0 \<le> n \<Longrightarrow> 0 \<le> x0 \<Longrightarrow> n < (x0 + 2 * 2 ^ k) * (x0 + 2 * 2 ^ k) \<Longrightarrow>
   isqrt_loop n x0 (2 ^ k) * isqrt_loop n x0 (2 ^ k) \<le> n \<and>
   n < (isqrt_loop n x0 (2 ^ k) + 1) * (isqrt_loop n x0 (2 ^ k) + 1)"
proof (induction k arbitrary: x0)
  case 0
  have unf: "isqrt_loop n x0 1 = (if (x0 + 1) * (x0 + 1) \<le> n then x0 + 1 else x0)"
    by (simp add: isqrt_loop.simps [of n x0 1] isqrt_loop_zero drop_bit_eq_div)
  show ?case using 0 unf by (auto simp: algebra_simps)
next
  case (Suc k)
  let ?b = "(2::int) ^ Suc k"
  let ?x = "if (x0 + ?b) * (x0 + ?b) \<le> n then x0 + ?b else x0"
  have unf: "isqrt_loop n x0 ?b = isqrt_loop n ?x (2 ^ k)"
    by (subst isqrt_loop.simps) (simp add: drop_bit_eq_div)
  have 1: "?x * ?x \<le> n" using Suc.prems by simp
  have 2: "0 \<le> ?x" using Suc.prems by simp
  have 3: "n < (?x + 2 * 2 ^ k) * (?x + 2 * 2 ^ k)"
    using Suc.prems by (auto simp: algebra_simps)
  show ?case using Suc.IH [OF 1 2 3] unf by simp
qed

lemma isqrt_correct:
  assumes "0 \<le> n"
  shows "\<exists>r. isqrt n = Inr r \<and> r * r \<le> n \<and> n < (r + 1) * (r + 1)"
proof (cases "n < 2")
  case True
  then have "n = 0 \<or> n = 1" using assms by auto
  then show ?thesis by (auto simp: isqrt_def)
next
  case False
  let ?k = "toString2_length n - 1"
  have len: "toString2_length n = binary_digits n" using assms by (simp add: toString2_length_def)
  have bnd: "2 ^ ?k \<le> n \<and> n < 2 ^ binary_digits n"
    using binary_digits_bounds [of n] False len by simp
  have dk: "binary_digits n = Suc ?k" using binary_digits_pos [of n] len by simp
  have lt: "n < 2 * 2 ^ ?k" using bnd dk by (metis power_Suc)
  have "(2::int) * 2 ^ ?k \<le> (1 + 2 * 2 ^ ?k) * (1 + 2 * 2 ^ ?k)"
    by (simp add: algebra_simps) 
  then have 3: "n < (1 + 2 * 2 ^ ?k) * (1 + 2 * 2 ^ ?k)" using lt by linarith
  have "isqrt_loop n 1 (2 ^ ?k) * isqrt_loop n 1 (2 ^ ?k) \<le> n \<and>
        n < (isqrt_loop n 1 (2 ^ ?k) + 1) * (isqrt_loop n 1 (2 ^ ?k) + 1)"
    using isqrt_loop_correct [of 1 n ?k] False 3 by simp
  then show ?thesis using False assms by (simp add: isqrt_def)
qed

lemma newton_step_upper:
  fixes n x :: int
  assumes "0 < x" "0 \<le> n"
  shows "n < ((x + n div x) div 2 + 1) * ((x + n div x) div 2 + 1)"
proof -
  define q where "q = n div x"
  define y where "y = (x + q) div 2"
  have q0: "0 \<le> q" using assms by (simp add: q_def pos_imp_zdiv_nonneg_iff)
  have "n = x * q + n mod x" by (simp add: q_def)
  moreover have "n mod x < x" using assms by simp
  ultimately have nlt: "n < x * (q + 1)" by (simp add: algebra_simps)
  have "x + q \<le> 2 * y + 1" unfolding y_def by presburger
  then have ge: "x + (q + 1) \<le> 2 * (y + 1)" by simp
  have "0 \<le> (x - (q + 1)) * (x - (q + 1))" by simp
  then have "4 * (x * (q + 1)) \<le> (x + (q + 1)) * (x + (q + 1))" by (simp add: algebra_simps)
  also have "\<dots> \<le> (2 * (y + 1)) * (2 * (y + 1))"
    using ge assms q0 by (intro mult_mono) auto
  finally have "x * (q + 1) \<le> (y + 1) * (y + 1)" by (simp add: algebra_simps)
  then show ?thesis using nlt unfolding y_def q_def by linarith
qed

lemma newton_stop_lower:
  fixes n x :: int
  assumes "0 < x" "0 \<le> n" "\<not> (x + n div x) div 2 < x"
  shows "x * x \<le> n"
proof -
  define q where "q = n div x"
  have "\<not> (x + q) div 2 < x" using assms(3) by (simp add: q_def)
  then have "2 * x \<le> x + q" by presburger
  then have "x \<le> n div x" by (simp add: q_def)
  then have "x * x \<le> x * (n div x)" using assms(1) by (simp add: mult_left_mono)
  also have "\<dots> \<le> n"
  proof -
    have "n = x * (n div x) + n mod x" by simp
    moreover have "0 \<le> n mod x" using assms(1) by simp
    ultimately show ?thesis by linarith
  qed
  finally show ?thesis .
qed

lemma newton_loop_correct:
  "0 < x \<Longrightarrow> 1 \<le> n \<Longrightarrow> n < (x + 1) * (x + 1) \<Longrightarrow> y = drop_bit 1 (x + n sdiv x) \<Longrightarrow>
   \<exists>r. newton_loop n x y = Some (Inr r) \<and> r * r \<le> n \<and> n < (r + 1) * (r + 1)"
proof (induction "nat x" arbitrary: x y rule: less_induct)
  case less
  have sd: "n sdiv x = n div x" using less.prems by (simp add: sdiv_int_div_0 signed_divide_int_def sgn_if)
  have y: "y = (x + n div x) div 2" using less.prems sd by (simp add: drop_bit_eq_div)
  show ?case
  proof (cases "y < x")
    case False
    then have "x * x \<le> n" using newton_stop_lower [of x n] less.prems y by simp
    then show ?thesis using False less.prems by (subst newton_loop.simps) simp
  next
    case True
    have up: "n < (y + 1) * (y + 1)" using newton_step_upper [of x n] less.prems y by simp
    have ypos: "0 < y"
    proof (rule ccontr)
      assume "\<not> 0 < y"
      then have "y + 1 \<le> 1" "0 \<le> y + 1 \<or> y + 1 < 0" by auto
      moreover have "0 \<le> n div x" using less.prems by (simp add: pos_imp_zdiv_nonneg_iff)
      then have "0 \<le> y" using y less.prems by simp
      ultimately have "y = 0" using \<open>\<not> 0 < y\<close> by simp
      then show False using up less.prems by simp
    qed
    have "\<exists>r. newton_loop n y (drop_bit 1 (y + n sdiv y)) = Some (Inr r) \<and> r * r \<le> n \<and> n < (r + 1) * (r + 1)"
      using less.hyps [of y "drop_bit 1 (y + n sdiv y)"] True ypos less.prems(2) up by simp
    then show ?thesis using True ypos by (subst newton_loop.simps) simp
  qed
qed

lemma isqrt_newton_correct:
  assumes "0 \<le> n"
  shows "\<exists>r. isqrt_newton n = Some (Inr r) \<and> r * r \<le> n \<and> n < (r + 1) * (r + 1)"
proof (cases "n < 2")
  case True
  then have "n = 0 \<or> n = 1" using assms by auto
  then show ?thesis by (auto simp: isqrt_newton_def)
next
  case False
  have "n sdiv n = 1" using False by (simp add: signed_divide_int_def sgn_if)
  then have y: "drop_bit 1 (n + 1) = drop_bit 1 (n + n sdiv n)" by simp
  have "0 \<le> n * n" by simp
  then have "n < n * n + 2 * n + 1" using False by linarith
  then have "n < (n + 1) * (n + 1)" by (simp add: algebra_simps)
  then show ?thesis
    using newton_loop_correct [of n n "drop_bit 1 (n + 1)"] False y by (simp add: isqrt_newton_def)
qed

text \<open>
  Claim C4. For every \<open>n \<ge> 0\<close> the value \<open>r\<close> returned by \<open>isqrt\<close> satisfies
  \<open>r * r \<le> n < (r + 1) * (r + 1)\<close>, for the bit-by-bit construction of both files
  and for the Newton iteration of the factorization module, which returns.
\<close>

theorem isqrt_floor_sqrt:
  assumes "0 \<le> n"
  shows "(\<exists>r. isqrt n = Inr r \<and> r * r \<le> n \<and> n < (r + 1) * (r + 1))
       \<and> (\<exists>r. isqrt_newton n = Some (Inr r) \<and> r * r \<le> n \<and> n < (r + 1) * (r + 1))"
  using isqrt_correct [OF assms] isqrt_newton_correct [OF assms] by blast

theorem isqrt_floor_sqrt_witness:
  "(0::int) \<le> 10
   \<and> (\<exists>r. isqrt 10 = Inr r \<and> r * r \<le> 10 \<and> 10 < (r + 1) * (r + 1))
   \<and> (\<exists>r. isqrt_newton 10 = Some (Inr r) \<and> r * r \<le> 10 \<and> 10 < (r + 1) * (r + 1))"
  using isqrt_floor_sqrt [of 10] by simp

section \<open>The admissibility filters accept primes\<close>

lemma prime_smod_nonzero:
  assumes "is_prime p" and "2 \<le> s" and "p \<noteq> s"
  shows "p smod s \<noteq> 0"
proof -
  have p: "1 < p" using assms(1) by (simp add: is_prime_def)
  have eq: "p smod s = p mod s" using p assms(2) by (simp add: smod_mod_positive)
  show ?thesis
  proof (cases "s < p")
    case True
    then have "\<not> s dvd p" using assms(1,2) by (simp add: is_prime_def)
    then show ?thesis using eq by (simp add: dvd_eq_mod_eq_0)
  next
    case False
    then have "p < s" using assms(3) by simp
    then show ?thesis using eq p by simp
  qed
qed

lemma is_prime_ge2: "is_prime p \<Longrightarrow> 2 \<le> p"
  by (simp add: is_prime_def)

lemma prime_even_is_2:
  assumes "is_prime p" and "p smod 2 = 0"
  shows "p = 2"
  using prime_smod_nonzero [OF assms(1), of 2] assms(2) by auto

lemma admissibleSingle_loop_prime:
  "is_prime p \<Longrightarrow> \<forall>s \<in> set S. is_prime s \<Longrightarrow> admissibleSingle_loop p S = Inr True"
proof (induction S)
  case Nil
  show ?case by simp
next
  case (Cons s S)
  have s2: "2 \<le> s" using Cons.prems(2) by (simp add: is_prime_ge2)
  show ?case
  proof (cases "p = s")
    case True
    then show ?thesis by simp
  next
    case False
    then have "p smod s \<noteq> 0" using prime_smod_nonzero [OF Cons.prems(1) s2] by simp
    then show ?thesis using False s2 Cons by simp
  qed
qed

lemma admissiblePair_loop_prime:
  "is_prime a \<Longrightarrow> is_prime b \<Longrightarrow> \<forall>s \<in> set S. is_prime s \<Longrightarrow>
   admissiblePair_loop a b S = Inr True"
proof (induction S)
  case Nil
  show ?case by simp
next
  case (Cons s S)
  have s2: "2 \<le> s" using Cons.prems(3) by (simp add: is_prime_ge2)
  show ?case
  proof (cases "a = s \<or> b = s")
    case True
    then show ?thesis using Cons by auto
  next
    case False
    then have "a smod s \<noteq> 0" "b smod s \<noteq> 0"
      using prime_smod_nonzero [OF Cons.prems(1) s2] prime_smod_nonzero [OF Cons.prems(2) s2]
      by simp_all
    then show ?thesis using False s2 Cons by simp
  qed
qed

lemma admissibleSingle_prime:
  assumes "is_prime (X + u)" and "\<forall>s \<in> set S. is_prime s"
  shows "admissibleSingle X u S = Inr True"
proof -
  have ge: "2 \<le> X + u" using assms(1) by (rule is_prime_ge2)
  show ?thesis
  proof (cases "(X + u) smod 2 = 0")
    case True
    then have "X + u = 2" using prime_even_is_2 [OF assms(1)] by simp
    then show ?thesis using True by (simp add: admissibleSingle_def)
  next
    case False
    then show ?thesis
      using ge admissibleSingle_loop_prime [OF assms] by (simp add: admissibleSingle_def Let_def)
  qed
qed

lemma admissibleGoldbach_prime:
  assumes "is_prime (x - t)" and "is_prime (x + t)" and "\<forall>s \<in> set S. is_prime s"
  shows "admissibleGoldbach x t S = Inr True"
proof -
  have ge: "2 \<le> x - t" "2 \<le> x + t" using assms(1,2) by (simp_all add: is_prime_ge2)
  have ev: "\<not> ((x - t) smod 2 = 0 \<and> x - t \<noteq> 2)" "\<not> ((x + t) smod 2 = 0 \<and> x + t \<noteq> 2)"
    using prime_even_is_2 [OF assms(1)] prime_even_is_2 [OF assms(2)] by blast+
  show ?thesis
    using ge ev admissiblePair_loop_prime [OF assms]
    by (simp add: admissibleGoldbach_def Let_def)
qed

lemma admissibleAroundSqrt_eq:
  "\<not> abort st \<Longrightarrow> admissibleAroundSqrt st x t S = admissibleGoldbach x t S"
  by (simp add: admissibleAroundSqrt_def admissibleGoldbach_def)

text \<open>
  \<open>admissibleAroundSqrt\<close> is called at one place, line 191 of \<open>factorize\<close>, which
  is reached past the test \<open>if(state.abort) return ...\<close> of line 185 with no
  \<open>await\<close> between the two. At that call \<open>state.abort\<close> is not set and the function
  is \<open>admissibleGoldbach\<close>: for every environment, one step of the scan is the step
  written with \<open>admissibleGoldbach\<close>.
\<close>

lemma windowScan_call:
  "windowScan env N x S T prefilter ring (u # us) k checked steps =
     (if abort (env k) then Inr (Inl Aborted)
      else if skipped ring T u then windowScan env N x S T prefilter ring us k checked steps
      else case (if prefilter then admissibleGoldbach x u S else Inr True) of
             Inl e \<Rightarrow> Inl e
           | Inr False \<Rightarrow> windowScan env N x S T prefilter ring us k checked steps
           | Inr True \<Rightarrow>
               if x + u = 0 then Inl RangeError
               else if N smod (x + u) = 0
               then Inr (Inl (Factor (x + u) (N sdiv (x + u)) (Window ring u (checked + 1))))
               else if u \<noteq> 0 \<and> x - u = 0 then Inl RangeError
               else if u \<noteq> 0 \<and> N smod (x - u) = 0
               then Inr (Inl (Factor (x - u) (N sdiv (x - u)) (Window ring (- u) (checked + 2))))
               else windowScan env N x S T prefilter ring us
                      (if (steps + 1) mod 5000 = 0 then k + 1 else k)
                      (if u \<noteq> 0 then checked + 2 else checked + 1)
                      (steps + 1))"
proof (cases "abort (env k)")
  case True
  then show ?thesis by simp
next
  case False
  then have "admissibleAroundSqrt (env k) x u S = admissibleGoldbach x u S"
    by (rule admissibleAroundSqrt_eq)
  then show ?thesis using False by simp
qed

lemma windowScan_prime_pair:
  assumes "\<forall>s \<in> set S. is_prime s" and "is_prime (x - t)" and "is_prime (x + t)"
    and "\<not> skipped ring T t"
  shows "windowScan env N x S T True ring (t # ts) k checked steps =
           (case windowScan env N x S T False ring [t] k checked steps of
              Inl e \<Rightarrow> Inl e
            | Inr (Inl r) \<Rightarrow> Inr (Inl r)
            | Inr (Inr (k', checked')) \<Rightarrow>
                windowScan env N x S T True ring ts k' checked' (steps + 1))"
proof -
  have adm: "admissibleGoldbach x t S = Inr True"
    using admissibleGoldbach_prime [OF assms(2,3,1)] .
  show ?thesis
    unfolding windowScan_call [of env N x S T True] windowScan_call [of env N x S T False ring t "[]"]
    using assms(4) adm by simp
qed

lemma admissibleAroundSqrt_aborted:
  "abort st \<Longrightarrow> admissibleAroundSqrt st x t S = Inr False"
  by (simp add: admissibleAroundSqrt_def)

text \<open>
  Claim C3. The admissibility prefilter never rejects a prime. For every center
  value, every list \<open>S\<close> of primes and every offset: if the single candidate is
  prime, \<open>admissibleSingle\<close> accepts the offset; if both symmetric candidates are
  prime, \<open>admissibleGoldbach\<close> accepts it, and so does \<open>admissibleAroundSqrt\<close> in
  every state in which it is called, where \<open>state.abort\<close> is not set. The last
  part says this of the call itself, for every environment and with no condition
  on the flag: in the scan of \<open>factorize\<close> with the prefilter on, an offset of the
  ring whose two candidates are prime is handled exactly as it is without the
  prefilter, and the scan goes on with the prefilter on.
\<close>

theorem admissible_accepts_primes:
  assumes "\<forall>s \<in> set S. is_prime s"
  shows "(is_prime (X + u) \<longrightarrow> admissibleSingle X u S = Inr True)
       \<and> (is_prime (x - t) \<and> is_prime (x + t) \<longrightarrow> admissibleGoldbach x t S = Inr True)
       \<and> (is_prime (x - t) \<and> is_prime (x + t) \<and> \<not> abort st \<longrightarrow>
            admissibleAroundSqrt st x t S = Inr True)
       \<and> (is_prime (x - t) \<and> is_prime (x + t) \<and> \<not> skipped ring T t \<longrightarrow>
            windowScan env N x S T True ring (t # ts) k checked steps =
              (case windowScan env N x S T False ring [t] k checked steps of
                 Inl e \<Rightarrow> Inl e
               | Inr (Inl r) \<Rightarrow> Inr (Inl r)
               | Inr (Inr (k', checked')) \<Rightarrow>
                   windowScan env N x S T True ring ts k' checked' (steps + 1)))"
  using admissibleSingle_prime [OF _ assms] admissibleGoldbach_prime [OF _ _ assms]
    admissibleAroundSqrt_eq [of st x t S] windowScan_prime_pair [OF assms, of x t ring T env N ts k checked steps]
  by auto

theorem admissible_accepts_primes_witness:
  "is_prime 2 \<and> is_prime 3 \<and> is_prime 5
   \<and> is_prime (10 + 3) \<and> admissibleSingle 10 3 [2, 3, 5] = Inr True
   \<and> is_prime (10 - 3) \<and> is_prime (10 + 3) \<and> admissibleGoldbach 10 3 [2, 3, 5] = Inr True
   \<and> \<not> abort \<lparr>running = True, abort = False\<rparr>
   \<and> admissibleAroundSqrt \<lparr>running = True, abort = False\<rparr> 10 3 [2, 3, 5] = Inr True
   \<and> \<not> skipped 1 5 3
   \<and> windowScan (\<lambda>k. \<lparr>running = True, abort = False\<rparr>) 91 10 [2, 3, 5] 5 True 1 [3] 0 0 0
       = Inr (Inl (Factor 13 7 (Window 1 3 1)))"
proof -
  have q: "is_prime 2" "is_prime 3" "is_prime 5" by code_simp+
  then have S: "\<forall>s \<in> set [2, 3, 5 :: int]. is_prime s" by simp
  have p: "is_prime (10 + 3)" "is_prime (10 - 3)" by code_simp+
  have sk: "\<not> skipped 1 5 3" by (simp add: skipped_def)
  have off: "windowScan (\<lambda>k. \<lparr>running = True, abort = False\<rparr>) 91 10 [2, 3, 5] 5 False 1 [3] 0 0 0
              = Inr (Inl (Factor 13 7 (Window 1 3 1)))"
    by (simp add: skipped_def signed_modulo_int_def signed_divide_int_def)
  show ?thesis
    using q p sk off
      admissible_accepts_primes [OF S, of 10 3 10 3 "\<lparr>running = True, abort = False\<rparr>" 1 5
        "\<lambda>k. \<lparr>running = True, abort = False\<rparr>" 91 "[]" 0 0 0]
    by simp
qed

section \<open>Miller-Rabin accepts primes\<close>

lemma is_prime_coprime:
  assumes "is_prime p" and "\<not> p dvd a"
  shows "coprime p a"
proof -
  have p: "1 < p" and nd: "\<And>d. 2 \<le> d \<Longrightarrow> d < p \<Longrightarrow> \<not> d dvd p"
    using assms(1) by (auto simp: is_prime_def)
  define g where "g = gcd p a"
  have g0: "0 \<le> g" by (simp add: g_def)
  have gp: "g dvd p" and ga: "g dvd a" by (simp_all add: g_def)
  have "g \<noteq> 0" using gp p by auto
  have "g \<le> p" using gp p by (simp add: zdvd_imp_le)
  have "g \<noteq> p" using ga assms(2) by auto
  have "g = 1"
  proof (rule ccontr)
    assume "g \<noteq> 1"
    then have "2 \<le> g" using g0 \<open>g \<noteq> 0\<close> by simp
    moreover have "g < p" using \<open>g \<le> p\<close> \<open>g \<noteq> p\<close> by simp
    ultimately show False using nd gp by blast
  qed
  then show ?thesis by (simp add: g_def coprime_iff_gcd_eq_1)
qed

lemma is_prime_dvd_mult:
  assumes "is_prime p" and "p dvd a * b"
  shows "p dvd a \<or> p dvd b"
proof (cases "p dvd a")
  case True
  then show ?thesis by simp
next
  case False
  then have "coprime p a" using is_prime_coprime [OF assms(1)] by simp
  then show ?thesis using assms(2) by (simp add: coprime_dvd_mult_right_iff)
qed

lemma is_prime_sqrt_one:
  assumes "is_prime p" and "0 \<le> x" and "x < p" and "(x * x) mod p = 1"
  shows "x = 1 \<or> x = p - 1"
proof -
  have p: "1 < p" using assms(1) by (simp add: is_prime_def)
  have "(x * x) mod p = 1 mod p" using assms(4) p by simp
  then have "p dvd x * x - 1" by (simp add: mod_eq_dvd_iff)
  moreover have "x * x - 1 = (x - 1) * (x + 1)" by (simp add: algebra_simps)
  ultimately have "p dvd x - 1 \<or> p dvd x + 1" using is_prime_dvd_mult [OF assms(1)] by simp
  then show ?thesis
  proof
    assume d: "p dvd x - 1"
    have "x - 1 = 0"
    proof (rule ccontr)
      assume nz: "x - 1 \<noteq> 0"
      show False
      proof (cases "0 < x - 1")
        case True
        then have "p \<le> x - 1" using d zdvd_imp_le [of p "x - 1"] by blast
        then show False using assms(3) by simp
      next
        case False
        then have "x - 1 = - 1" using nz assms(2) by simp
        then have "p dvd 1" using d by simp
        then show False using p by simp
      qed
    qed
    then show ?thesis by simp
  next
    assume d: "p dvd x + 1"
    have "0 < x + 1" using assms(2) by simp
    then have "p \<le> x + 1" using d zdvd_imp_le [of p "x + 1"] by blast
    then show ?thesis using assms(3) by simp
  qed
qed

lemma is_prime_dvd_choose:
  assumes "is_prime p" and "0 < k" and "k < nat p"
  shows "p dvd int (nat p choose k)"
proof -
  have p: "1 < p" using assms(1) by (simp add: is_prime_def)
  have "k * (nat p choose k) = nat p * ((nat p - 1) choose (k - 1))"
    using assms(2) by (rule times_binomial_minus1_eq)
  then have "int k * int (nat p choose k) = int (nat p) * int ((nat p - 1) choose (k - 1))"
    by (metis of_nat_mult)
  then have "p dvd int k * int (nat p choose k)" using p by simp
  then have "p dvd int k \<or> p dvd int (nat p choose k)" by (rule is_prime_dvd_mult [OF assms(1)])
  moreover have "\<not> p dvd int k"
  proof
    assume "p dvd int k"
    then have "p \<le> int k" using assms(2) zdvd_imp_le [of p "int k"] by simp
    then show False using assms(3) by simp
  qed
  ultimately show ?thesis by simp
qed

lemma freshman_step:
  assumes "is_prime p"
  shows "p dvd (a + 1) ^ nat p - a ^ nat p - 1"
proof -
  define n where "n = nat p"
  have p: "1 < p" using assms by (simp add: is_prime_def)
  have n: "1 < n" "int n = p" using p by (simp_all add: n_def)
  define g where "g k = int (n choose k) * a ^ k" for k
  have bin: "(a + 1) ^ n = (\<Sum>k\<le>n. g k)"
    using binomial_ring [of a 1 n] by (simp add: g_def)
  have "(\<Sum>k\<le>n. g k) = g n + (\<Sum>k\<in>{..n} - {n}. g k)"
    by (rule sum.remove) simp_all
  also have "(\<Sum>k\<in>{..n} - {n}. g k) = g 0 + (\<Sum>k\<in>{..n} - {n} - {0}. g k)"
    using n by (intro sum.remove) auto
  finally have split: "(a + 1) ^ n = a ^ n + 1 + (\<Sum>k\<in>{..n} - {n} - {0}. g k)"
    using bin by (simp add: g_def)
  have "p dvd (\<Sum>k\<in>{..n} - {n} - {0}. g k)"
  proof (rule dvd_sum)
    fix k assume "k \<in> {..n} - {n} - {0}"
    then have "0 < k" "k < nat p" by (auto simp: n_def)
    then have "p dvd int (nat p choose k)" by (rule is_prime_dvd_choose [OF assms])
    then show "p dvd g k" by (simp add: g_def n_def)
  qed
  then show ?thesis using split by (simp add: n_def)
qed

lemma fermat_dvd:
  assumes "is_prime p"
  shows "p dvd (int a) ^ nat p - int a"
proof (induction a)
  case 0
  have "0 < nat p" using assms by (simp add: is_prime_def)
  then show ?case by (simp add: power_0_left)
next
  case (Suc a)
  define A where "A = (int a + 1) ^ nat p - int a ^ nat p - 1"
  define B where "B = int a ^ nat p - int a"
  have "p dvd A" unfolding A_def by (rule freshman_step [OF assms])
  moreover have "p dvd B" unfolding B_def by (rule Suc.IH)
  ultimately have "p dvd A + B" by (rule dvd_add)
  moreover have "int (Suc a) ^ nat p - int (Suc a) = A + B"
    by (simp add: A_def B_def add.commute)
  ultimately show ?case by (simp only:)
qed

lemma fermat_little:
  assumes "is_prime p" and "0 \<le> a" and "\<not> p dvd a"
  shows "a ^ nat (p - 1) mod p = 1"
proof -
  have p: "1 < p" using assms(1) by (simp add: is_prime_def)
  have "p dvd a ^ nat p - a" using fermat_dvd [OF assms(1), of "nat a"] assms(2) by simp
  moreover have "nat p = Suc (nat (p - 1))" using p by simp
  ultimately have "p dvd a * (a ^ nat (p - 1) - 1)" by (simp add: algebra_simps)
  then have "p dvd a ^ nat (p - 1) - 1" using is_prime_dvd_mult [OF assms(1)] assms(3) by blast
  then have "a ^ nat (p - 1) mod p = 1 mod p" by (simp add: mod_eq_dvd_iff)
  then show ?thesis using p by simp
qed

lemma modPow_loop_mod:
  "0 \<le> b \<Longrightarrow> 0 \<le> r \<Longrightarrow> 0 < m \<Longrightarrow>
   modPow_loop b e r m mod m = (r * b ^ nat e) mod m"
proof (induction b e r m rule: modPow_loop.induct)
  case (1 b e r m)
  show ?case
  proof (cases "e > 0")
    case False
    then show ?thesis by (simp add: modPow_loop.simps [of b e r m])
  next
    case True
    let ?b = "(b * b) smod m"
    let ?r = "if e AND 1 \<noteq> 0 then (r * b) smod m else r"
    have bb: "?b = (b * b) mod m" using "1.prems" by (simp add: smod_mod_positive)
    have b': "0 \<le> ?b" using "1.prems" bb by simp
    have rr: "?r = (if odd e then (r * b) mod m else r)"
      using "1.prems" by (simp add: smod_mod_positive and_one_eq mod_2_eq_odd)
    have r': "0 \<le> ?r" using "1.prems" rr by simp
    have unf: "modPow_loop b e r m = modPow_loop ?b (drop_bit 1 e) ?r m"
      using True by (simp add: modPow_loop.simps [of b e r m])
    have IH: "modPow_loop ?b (drop_bit 1 e) ?r m mod m = (?r * ?b ^ nat (drop_bit 1 e)) mod m"
      using "1.IH" [OF True b' r' "1.prems"(3)] .
    define h where "h = nat (e div 2)"
    have h: "nat (drop_bit 1 e) = h" by (simp add: h_def drop_bit_eq_div)
    have sq: "?b ^ h mod m = (b ^ (2 * h)) mod m"
      unfolding bb by (simp add: power_mod power_mult power2_eq_square)
    have "(?r * ?b ^ h) mod m = (r * b ^ nat e) mod m"
    proof (cases "odd e")
      case True
      then have e: "nat e = Suc (2 * h)" using \<open>0 < e\<close> unfolding h_def
        by (auto elim!: oddE simp: nat_add_distrib nat_mult_distrib)
      have "(?r * ?b ^ h) mod m = (((r * b) mod m) * (?b ^ h mod m)) mod m"
        using True rr by (simp add: mod_mult_right_eq)
      also have "\<dots> = ((r * b) * b ^ (2 * h)) mod m"
        unfolding sq by (simp add: mod_mult_eq)
      finally show ?thesis using e by (simp add: mult.assoc)
    next
      case False
      then have e: "nat e = 2 * h" using \<open>0 < e\<close> unfolding h_def
        by (auto elim!: evenE simp: nat_mult_distrib)
      have "(?r * ?b ^ h) mod m = (r * (?b ^ h mod m)) mod m"
        using False rr by (simp add: mod_mult_right_eq)
      also have "\<dots> = (r * b ^ (2 * h)) mod m"
        unfolding sq by (simp add: mod_mult_right_eq)
      finally show ?thesis using e by simp
    qed
    then show ?thesis using unf IH h by simp
  qed
qed

lemma modPow_power:
  assumes "0 \<le> a" and "2 \<le> n"
  shows "modPow a d n = Inr (a ^ nat d mod n)"
proof -
  have n: "0 < n" using assms by simp
  have a: "0 \<le> a smod n" "a smod n = a mod n" using assms by (simp_all add: smod_mod_positive)
  have rng: "0 \<le> modPow_loop (a smod n) d 1 n \<and> modPow_loop (a smod n) d 1 n < n"
    using modPow_loop_range [OF a(1), of 1 n d] assms by simp
  have "modPow_loop (a smod n) d 1 n mod n = (1 * (a smod n) ^ nat d) mod n"
    using modPow_loop_mod [OF a(1) _ n, of 1 d] by simp
  then have "modPow_loop (a smod n) d 1 n = (a mod n) ^ nat d mod n"
    using rng a(2) by simp
  then show ?thesis using n by (simp add: modPow_def power_mod)
qed

lemma oddPart_loop_returns:
  "0 < d \<Longrightarrow> 0 \<le> s \<Longrightarrow>
   \<exists>d' s'. oddPart_loop d s = Some (d', s') \<and> odd d' \<and> 0 < d' \<and> s \<le> s' \<and> d = d' * 2 ^ nat (s' - s)"
proof (induction "nat d" arbitrary: d s rule: less_induct)
  case less
  show ?case
  proof (cases "d AND 1 = 0")
    case False
    then have "odd d" by (simp add: and_one_eq mod_2_eq_odd)
    then show ?thesis using False less.prems by (subst oddPart_loop.simps) simp
  next
    case True
    then have ev: "even d" by (simp add: and_one_eq mod_2_eq_odd)
    let ?d = "drop_bit 1 d"
    have d2: "?d = d div 2" by (simp add: drop_bit_eq_div)
    have pos: "0 < ?d" using ev less.prems d2 by (auto elim: evenE)
    have lt: "nat ?d < nat d" using less.prems d2 by simp
    obtain d' s' where r: "oddPart_loop ?d (s + 1) = Some (d', s')" "odd d'" "0 < d'"
        "s + 1 \<le> s'" "?d = d' * 2 ^ nat (s' - (s + 1))"
      using less.hyps [OF lt pos, of "s + 1"] less.prems by auto
    have "nat (s' - s) = Suc (nat (s' - (s + 1)))" using r(4) by simp
    then have "d' * 2 ^ nat (s' - s) = 2 * ?d" using r(5) by simp
    also have "\<dots> = d" using ev d2 by simp
    finally have "d = d' * 2 ^ nat (s' - s)" by simp
    moreover have "oddPart_loop d s = Some (d', s')"
      using True r(1) by (subst oddPart_loop.simps) simp
    ultimately show ?thesis using r by auto
  qed
qed

lemma squaring_loop_finds:
  "is_prime n \<Longrightarrow> 0 \<le> x \<Longrightarrow> x < n \<Longrightarrow> x \<noteq> 1 \<Longrightarrow> x \<noteq> n - 1 \<Longrightarrow> r \<le> s \<Longrightarrow>
   x ^ (2 ^ nat (s - r + 1)) mod n = 1 \<Longrightarrow> squaring_loop n s r x"
proof (induction n s r x rule: squaring_loop.induct)
  case (1 n s r x)
  have n: "1 < n" using "1.prems" by (simp add: is_prime_def)
  let ?x = "(x * x) smod n"
  have xx: "?x = (x * x) mod n" using "1.prems" n by (simp add: smod_mod_positive)
  have not1: "(x * x) mod n \<noteq> 1"
    using is_prime_sqrt_one [of n x] "1.prems" by blast
  show ?case
  proof (cases "r < s")
    case False
    then have "nat (s - r + 1) = 1" using "1.prems" by simp
    then have "x ^ 2 mod n = 1" using "1.prems" by simp
    then show ?thesis using not1 by (simp add: power2_eq_square)
  next
    case True
    show ?thesis
    proof (cases "?x = n - 1")
      case True
      then show ?thesis using \<open>r < s\<close> by (subst squaring_loop.simps) simp
    next
      case False
      define k where "k = nat (s - (r + 1) + 1)"
      have k: "nat (s - r + 1) = Suc k" using True by (simp add: k_def)
      have "?x ^ (2 ^ k) mod n = (x * x) ^ (2 ^ k) mod n"
        unfolding xx by (simp add: power_mod)
      also have "\<dots> = x ^ (2 * 2 ^ k) mod n"
        by (simp add: power_mult power2_eq_square)
      also have "\<dots> = 1" using "1.prems" k by simp
      finally have pw: "?x ^ (2 ^ nat (s - (r + 1) + 1)) mod n = 1" by (simp add: k_def)
      have rng: "0 \<le> ?x" "?x < n" using n xx by simp_all
      have ne1: "?x \<noteq> 1" using not1 xx by simp
      have "squaring_loop n s (r + 1) ?x"
        using "1.IH" [OF True False "1.prems"(1) rng ne1 False _ pw] True by simp
      then show ?thesis using True False by (subst squaring_loop.simps) simp
    qed
  qed
qed

lemma trial_prime:
  assumes "is_prime n" and "0 \<le> a" and "0 < d" and "0 \<le> s" and "n - 1 = d * 2 ^ nat s"
  shows "trial n d s a = Inr True"
proof (cases "a smod n = 0")
  case True
  then show ?thesis using assms(1) by (auto simp: trial_def is_prime_def)
next
  case False
  have n: "1 < n" using assms(1) by (simp add: is_prime_def)
  have "a smod n = a mod n" using assms(2) n by (simp add: smod_mod_positive)
  then have nd: "\<not> n dvd a" using False by (simp add: dvd_eq_mod_eq_0)
  define x where "x = a ^ nat d mod n"
  have mp: "modPow a d n = Inr x" using modPow_power [of a n d] assms(2) n by (simp add: x_def)
  have rng: "0 \<le> x" "x < n" using n by (simp_all add: x_def)
  have "nat (n - 1) = nat d * 2 ^ nat s"
    using assms(3,5) by (simp add: nat_mult_distrib nat_power_eq)
  then have "a ^ nat (n - 1) = (a ^ nat d) ^ (2 ^ nat s)" by (simp add: power_mult)
  then have "x ^ (2 ^ nat s) mod n = a ^ nat (n - 1) mod n" by (simp add: x_def power_mod)
  then have pw: "x ^ (2 ^ nat s) mod n = 1" using fermat_little [OF assms(1,2) nd] by simp
  show ?thesis
  proof (cases "x = 1 \<or> x = n - 1")
    case True
    then show ?thesis using False n mp by (auto simp: trial_def)
  next
    case ne: False
    have "s \<noteq> 0"
    proof
      assume "s = 0"
      then have "x mod n = 1" using pw by simp
      then show False using rng ne by simp
    qed
    then have s1: "1 \<le> s" using assms(4) by simp
    have "nat (s - 1 + 1) = nat s" by simp
    then have "squaring_loop n s 1 x"
      using squaring_loop_finds [OF assms(1) rng(1) rng(2) _ _ s1] ne pw by simp
    then show ?thesis using False n mp ne by (auto simp: trial_def)
  qed
qed

lemma small_loop_prime:
  "is_prime n \<Longrightarrow> \<forall>p \<in> set ps. 2 \<le> p \<Longrightarrow> small_loop n ps = Some True \<or> (small_loop n ps = None \<and> n \<notin> set ps)"
proof (induction ps)
  case Nil
  show ?case by simp
next
  case (Cons p ps)
  show ?case
  proof (cases "n = p")
    case True
    then show ?thesis by simp
  next
    case False
    then have "n smod p \<noteq> 0" using prime_smod_nonzero [of n p] Cons.prems by simp
    then show ?thesis using False Cons by auto
  qed
qed

lemma small_loop64_prime:
  "is_prime n \<Longrightarrow> \<forall>p \<in> set ps. 2 \<le> p \<Longrightarrow> small_loop64 n ps = Some True \<or> small_loop64 n ps = None"
proof (induction ps)
  case Nil
  show ?case by simp
next
  case (Cons p ps)
  show ?case
  proof (cases "n = p")
    case True
    have "0 \<le> p" using Cons.prems by simp
    then have "p smod p = 0" by (simp add: smod_mod_positive)
    then show ?thesis using True by simp
  next
    case False
    then have "n smod p \<noteq> 0" using prime_smod_nonzero [of n p] Cons.prems by simp
    then show ?thesis using False Cons by auto
  qed
qed

lemma fixed_loop_prime:
  assumes "is_prime n" and "0 < d" and "0 \<le> s" and "n - 1 = d * 2 ^ nat s"
  shows "\<forall>a \<in> set as. 0 \<le> a \<Longrightarrow>
         fixed_loop n d s rounds as cnt = Inr (Inl True) \<or> (\<exists>c. fixed_loop n d s rounds as cnt = Inr (Inr c))"
proof (induction as arbitrary: cnt)
  case Nil
  show ?case by simp
next
  case (Cons a as)
  have "trial n d s a = Inr True" using trial_prime [OF assms(1) _ assms(2,3,4), of a] Cons.prems by simp
  then show ?case using Cons.IH [of "cnt + 1"] Cons.prems by simp
qed

lemma rnd32_nonneg: "0 \<le> rnd32 seed"
  by (simp add: rnd32_def)

lemma random_loop_prime:
  assumes "is_prime n" and "2 < n" and "0 < d" and "0 \<le> s" and "n - 1 = d * 2 ^ nat s"
  shows "random_loop n d s rounds seed cnt = Inr True"
proof (induction "nat (rounds - cnt)" arbitrary: seed cnt)
  case 0
  then have "\<not> cnt < rounds" by simp
  then show ?case by (subst random_loop.simps) simp
next
  case (Suc k)
  then have lt: "cnt < rounds" by simp
  define seed' where "seed' = rnd32 seed"
  define span where "span = n - 3"
  define a where "a = 2 + seed' smod (if span > 0 then span else 1)"
  define a' where "a' = (if a \<ge> n then a smod (n - 2) + 2 else a)"
  have "0 \<le> seed' smod (if span > 0 then span else 1)"
    using rnd32_nonneg [of seed] by (simp add: seed'_def smod_mod_positive)
  then have a0: "0 \<le> a" by (simp add: a_def)
  then have "0 \<le> a smod (n - 2)" using assms(2) by (simp add: smod_mod_positive)
  then have a'0: "0 \<le> a'" using a0 by (simp add: a'_def)
  have tr: "trial n d s a' = Inr True"
    using trial_prime [OF assms(1) a'0 assms(3,4,5)] .
  have n2: "\<not> (a \<ge> n \<and> n - 2 = 0)" using assms(2) by simp
  have "k = nat (rounds - (cnt + 1))" using Suc.hyps(2) by simp
  then have IH: "random_loop n d s rounds seed' (cnt + 1) = Inr True" by (rule Suc.hyps(1))
  have tr1: "n \<le> a \<Longrightarrow> trial n d s (a smod (n - 2) + 2) = Inr True"
    and tr2: "\<not> n \<le> a \<Longrightarrow> trial n d s a = Inr True"
    using tr by (simp_all add: a'_def)
  show ?case
    using lt n2 tr1 tr2 IH
    by (subst random_loop.simps) (simp add: Let_def seed'_def [symmetric] span_def [symmetric]
        a_def [symmetric])
qed

lemma bases_loop_prime:
  assumes "is_prime n" and "0 < d" and "0 \<le> s" and "n - 1 = d * 2 ^ nat s"
  shows "\<forall>a \<in> set as. 0 \<le> a \<Longrightarrow> bases_loop n d s as = Inr True"
proof (induction as)
  case Nil
  show ?case by simp
next
  case (Cons a as)
  have n: "1 < n" using assms(1) by (simp add: is_prime_def)
  have tr: "trial n d s a = Inr True"
    using trial_prime [OF assms(1) _ assms(2,3,4), of a] Cons.prems by simp
  have IH: "bases_loop n d s as = Inr True" using Cons by simp
  show ?case
  proof (cases "a smod n = 0")
    case True
    then show ?thesis using n IH by simp
  next
    case False
    obtain x where mp: "modPow a d n = Inr x"
      using modPow_power [of a n d] Cons.prems n by simp
    have "x = 1 \<or> x = n - 1 \<or> squaring_loop n s 1 x"
      using tr False n mp by (auto simp: trial_def split: if_splits)
    then show ?thesis using False n mp IH by auto
  qed
qed

lemma isProbablePrime_prime:
  assumes "is_prime n"
  shows "isProbablePrime n rounds = Some (Inr True)"
proof -
  have n: "1 < n" using assms by (simp add: is_prime_def)
  let ?small = "[2, 3, 5, 7, 11, 13, 17, 19, 23, 29, 31, 37] :: int list"
  have "small_loop n ?small = Some True \<or> (small_loop n ?small = None \<and> n \<notin> set ?small)"
    by (rule small_loop_prime [OF assms]) simp
  then show ?thesis
  proof
    assume "small_loop n ?small = Some True"
    then show ?thesis using n by (simp add: isProbablePrime_def del: small_loop.simps)
  next
    assume sm: "small_loop n ?small = None \<and> n \<notin> set ?small"
    then have "n \<notin> set ?small" ..
    then have "n \<noteq> 2" by simp
    then have n2: "2 < n" using n by simp
    obtain d s where ds: "oddPart_loop (n - 1) 0 = Some (d, s)" "0 < d" "0 \<le> s"
        "n - 1 = d * 2 ^ nat (s - 0)"
      using oddPart_loop_returns [of "n - 1" 0] n by auto
    have ds4: "n - 1 = d * 2 ^ nat s" using ds(4) by simp
    let ?fixed = "[2, 3, 5, 7, 11, 13, 17] :: int list"
    have "fixed_loop n d s rounds ?fixed 0 = Inr (Inl True)
        \<or> (\<exists>c. fixed_loop n d s rounds ?fixed 0 = Inr (Inr c))"
      by (rule fixed_loop_prime [OF assms ds(2,3) ds4]) simp
    then show ?thesis
    proof
      assume "fixed_loop n d s rounds ?fixed 0 = Inr (Inl True)"
      then show ?thesis using n sm ds(1)
        by (simp add: isProbablePrime_def del: small_loop.simps fixed_loop.simps)
    next
      assume "\<exists>c. fixed_loop n d s rounds ?fixed 0 = Inr (Inr c)"
      then obtain c where "fixed_loop n d s rounds ?fixed 0 = Inr (Inr c)" ..
      then show ?thesis
        using n sm ds(1) random_loop_prime [OF assms n2 ds(2,3) ds4]
        by (simp add: isProbablePrime_def del: small_loop.simps fixed_loop.simps)
    qed
  qed
qed

lemma isPrime64_prime:
  assumes "is_prime n"
  shows "isPrime64 n = Some (Inr True)"
proof -
  have n: "1 < n" using assms by (simp add: is_prime_def)
  let ?small = "[2, 3, 5, 7, 11, 13, 17, 19, 23, 29] :: int list"
  have "small_loop64 n ?small = Some True \<or> small_loop64 n ?small = None"
    by (rule small_loop64_prime [OF assms]) simp
  then show ?thesis
  proof
    assume "small_loop64 n ?small = Some True"
    then show ?thesis using n by (simp add: isPrime64_def del: small_loop64.simps)
  next
    assume sm: "small_loop64 n ?small = None"
    obtain d s where ds: "oddPart_loop (n - 1) 0 = Some (d, s)" "0 < d" "0 \<le> s"
        "n - 1 = d * 2 ^ nat (s - 0)"
      using oddPart_loop_returns [of "n - 1" 0] n by auto
    have ds4: "n - 1 = d * 2 ^ nat s" using ds(4) by simp
    have "bases_loop n d s [2, 3, 5, 7, 11, 13, 17] = Inr True"
      by (rule bases_loop_prime [OF assms ds(2,3) ds4]) simp
    then show ?thesis using n sm ds(1)
      by (simp add: isPrime64_def del: small_loop64.simps bases_loop.simps)
  qed
qed

lemma false_verdict_not_prime:
  "isProbablePrime n rounds = Some (Inr False) \<Longrightarrow> \<not> is_prime n"
  "isPrime64 n = Some (Inr False) \<Longrightarrow> \<not> is_prime n"
  using isProbablePrime_prime [of n rounds] isPrime64_prime [of n] by auto

text \<open>
  Claim C2. The Miller-Rabin tester never reports a prime as composite: for every
  prime \<open>n\<close> and every round count, \<open>isProbablePrime\<close> returns \<open>true\<close>, and so does
  \<open>isPrime64\<close>; both runs return and neither throws. A verdict \<open>false\<close> is
  therefore only produced for inputs that are not prime.
\<close>

theorem miller_rabin_accepts_primes:
  assumes "is_prime n"
  shows "isProbablePrime n rounds = Some (Inr True) \<and> isPrime64 n = Some (Inr True)"
  using isProbablePrime_prime [OF assms] isPrime64_prime [OF assms] by simp

theorem miller_rabin_accepts_primes_witness:
  "is_prime 1009 \<and> isProbablePrime 1009 12 = Some (Inr True) \<and> isPrime64 1009 = Some (Inr True)"
proof -
  have p: "is_prime 1009" by code_simp
  show ?thesis using p miller_rabin_accepts_primes [OF p, of 12] by simp
qed

section \<open>The even case of FactoriX\<close>

lemma even_smod2: "even (N::int) \<Longrightarrow> N smod 2 = 0"
  by (auto simp: signed_modulo_int_def)

text \<open>
  Claim C10. For every even \<open>N\<close>, \<open>factorize\<close> returns at its first statement
  with success, \<open>p = 2\<close>, \<open>q = N / 2\<close> and phase \<open>"even"\<close>, whatever the other
  arguments and the global state are; the cofactor is not compared with 1, and
  \<open>N = 2\<close> yields the pair \<open>(2, 1)\<close> (the witness below).
\<close>

theorem factorize_even:
  assumes "even N"
  shows "factorize env N B T K prefilter mrRounds P = Inr (Factor 2 (N sdiv 2) Even)"
  using even_smod2 [OF assms] by (simp add: factorize_def)

theorem factorize_even_witness:
  "even (2::int)
   \<and> factorize (\<lambda>k. \<lparr>running = True, abort = False\<rparr>) 2 200000 20000 40 True 12 5
       = Inr (Factor 2 1 Even)"
  using factorize_even [of 2 "\<lambda>k. \<lparr>running = True, abort = False\<rparr>" 200000 20000 40 True 12 5]
  by (simp add: signed_divide_int_def)

section \<open>The rings of the factor search\<close>

lemma symmetricOffsets_set: "u \<in> set (symmetricOffsets R) \<longleftrightarrow> u = 0 \<or> \<bar>u\<bar> \<le> R"
proof
  assume "u \<in> set (symmetricOffsets R)"
  then show "u = 0 \<or> \<bar>u\<bar> \<le> R" by (auto simp: symmetricOffsets_def)
next
  assume h: "u = 0 \<or> \<bar>u\<bar> \<le> R"
  show "u \<in> set (symmetricOffsets R)"
  proof (cases "u = 0")
    case True
    then show ?thesis by (simp add: symmetricOffsets_def)
  next
    case False
    then have "\<bar>u\<bar> \<in> {1..R}" "u = \<bar>u\<bar> \<or> u = - \<bar>u\<bar>" using h by auto
    then show ?thesis unfolding symmetricOffsets_def by (auto intro: bexI [of _ "\<bar>u\<bar>"])
  qed
qed

lemma ringOffsets_set:
  "u \<in> set (ringOffsets ring T) \<longleftrightarrow> (u = 0 \<or> \<bar>u\<bar> \<le> ring * T) \<and> \<not> (ring > 0 \<and> \<bar>u\<bar> < (ring - 1) * T)"
  by (simp add: ringOffsets_def symmetricOffsets_set skipped_def)

lemma ringOffsets_closed_interval:
  assumes "1 \<le> ring" and "0 \<le> T"
  shows "u \<in> set (ringOffsets ring T) \<longleftrightarrow> (ring - 1) * T \<le> \<bar>u\<bar> \<and> \<bar>u\<bar> \<le> ring * T"
proof -
  have "0 \<le> ring * T" using assms by simp
  then show ?thesis using assms by (auto simp: ringOffsets_set)
qed

lemma ringScan_filter:
  "ringScan N X S pre T ring us c = ringScan N X S pre T ring (filter (\<lambda>u. \<not> skipped ring T u) us) c"
proof (induction us arbitrary: c)
  case Nil
  show ?case by simp
next
  case (Cons u us)
  show ?case
  proof (cases "skipped ring T u")
    case True
    then show ?thesis using Cons.IH by simp
  next
    case False
    then show ?thesis
      by (simp add: Cons.IH [symmetric] cong: sum.case_cong prod.case_cong bool.case_cong if_cong)
  qed
qed

lemma windowScan_filter:
  assumes "\<forall>k. \<not> abort (env k)"
  shows "windowScan env N x S T pre ring us k c st
   = windowScan env N x S T pre ring (filter (\<lambda>u. \<not> skipped ring T u) us) k c st"
proof (induction us arbitrary: k c st)
  case Nil
  show ?case by simp
next
  case (Cons u us)
  show ?case
  proof (cases "skipped ring T u")
    case False
    then show ?thesis
      by (simp add: Cons.IH [symmetric] cong: sum.case_cong prod.case_cong bool.case_cong if_cong)
  next
    case True
    then show ?thesis using assms Cons.IH by simp
  qed
qed

text \<open>
  Claim C8 does not hold of the code. The test that skips an offset is
  \<open>Math.abs(u) < (ring - 1) * T\<close>, so ring \<open>k \<ge> 1\<close> examines the magnitudes of the
  closed interval from \<open>(k - 1) * T\<close> to \<open>k * T\<close> (lemma \<open>ringOffsets_closed_interval\<close>)
  and the boundary offsets of magnitude \<open>(k - 1) * T\<close> are examined in ring
  \<open>k - 1\<close> and again in ring \<open>k\<close>. With \<open>T = 8\<close> the offset 8 is examined in rings 1
  and 2, and the offset 0 in rings 0 and 1. The run of \<open>factorize\<close> on 101 with
  \<open>T = 1\<close>, \<open>K = 1\<close> and no prefilter counts 6 divisions: 1 in ring 0 and 5 in ring
  1, where the offsets 1 and -1 alone would give 4.
\<close>

theorem ring_boundary_retested:
  "8 \<in> set (ringOffsets 1 8) \<and> 8 \<in> set (ringOffsets 2 8)
   \<and> 0 \<in> set (ringOffsets 0 8) \<and> 0 \<in> set (ringOffsets 1 8)
   \<and> factorize (\<lambda>k. \<lparr>running = True, abort = False\<rparr>) 101 0 1 1 False 12 7 = Inr (NotFound 6)"
proof -
  have "factorize (\<lambda>k. \<lparr>running = True, abort = False\<rparr>) 101 0 1 1 False 12 7 = Inr (NotFound 6)"
    by code_simp
  then show ?thesis by (simp add: ringOffsets_set)
qed

section \<open>Bounded correction\<close>













section \<open>The safety ceiling\<close>

lemma safety_ceiling_prime:
  assumes "parseBigIntExpr rawX = Big X a" and "Toverride = 0" and "Tauto > 100000"
  shows "runPrimeNearX rawX Pauto Tauto Poverride Toverride mrRounds
         = Some (SafetyPreview (if Poverride \<noteq> 0 then max 3 (toInt32 Poverride) else Pauto) Tauto)"
  using assms by (simp add: runPrimeNearX_def)

lemma safety_ceiling_goldbach:
  assumes "parseBigIntExpr rawE = Big E a" and "E smod 2 = 0" and "Toverride = 0" and "Tauto > 100000"
  shows "runGoldbach rawE Pauto Tauto Poverride Toverride mrRounds
         = Some (SafetyPreview (if Poverride \<noteq> 0 then max 3 (toInt32 Poverride) else Pauto) Tauto)"
  using assms by (simp add: runGoldbach_def)

lemma isqrt_unique:
  assumes "0 \<le> r" and "0 \<le> x" and "r * r \<le> n" and "n < (r + 1) * (r + 1)"
    and "x * x \<le> n" and "n < (x + 1) * (x + 1)"
  shows "r = (x::int)"
proof (rule ccontr)
  assume "r \<noteq> x"
  then consider "r + 1 \<le> x" | "x + 1 \<le> r" by linarith
  then show False
  proof cases
    case 1
    then have "(r + 1) * (r + 1) \<le> x * x" using assms(1) by (intro mult_mono) auto
    then show False using assms by linarith
  next
    case 2
    then have "(x + 1) * (x + 1) \<le> r * r" using assms(2) by (intro mult_mono) auto
    then show False using assms by linarith
  qed
qed

lemma sqrt_bounds_nonneg:
  assumes "r * r \<le> n" and "n < (r + 1) * (r + 1)"
  shows "0 \<le> (r::int)"
proof -
  have "(r + 1) * (r + 1) = r * r + 2 * r + 1" by (simp add: algebra_simps)
  then show ?thesis using assms by linarith
qed

lemma isqrt_of_square:
  assumes "0 \<le> x"
  shows "isqrt (x * x) = Inr x"
proof -
  obtain r where r: "isqrt (x * x) = Inr r" "r * r \<le> x * x" "x * x < (r + 1) * (r + 1)"
    using isqrt_correct [of "x * x"] by auto
  have "0 \<le> r" using r(2,3) by (rule sqrt_bounds_nonneg)
  moreover have "x * x < (x + 1) * (x + 1)" using assms by (simp add: algebra_simps)
  ultimately have "r = x" using isqrt_unique [of r x "x * x"] assms r by simp
  then show ?thesis using r(1) by simp
qed

lemma parse_10_100: "parseBigIntExpr (js ''10^100'') = Big (10 ^ 100) 100"
  by (simp add: parseBigIntExpr_def js_def trim_def removeSpaces_def isSpace_def isDigit_def
      isDigitsOnly_def matchPow10_def BigInt_of_digits_def powBI_def powBI_loop.simps
      drop_bit_eq_div)

text \<open>
  Claim C6 does not hold of the code. \<open>runPrimeNearX\<close> and \<open>runGoldbach\<close> return
  the preview when the derived \<open>T\<close> exceeds 100000 and no override is given (the two
  lemmas \<open>safety_ceiling_prime\<close> and \<open>safety_ceiling_goldbach\<close>), but
  \<open>runFactorization\<close> has no such test. For \<open>N = 10^100\<close> with \<open>c1 = 1.6\<close> and
  \<open>c2 = 2.0\<close> the derived values are \<open>P = 368\<close> and \<open>T = 106037\<close>; the scan runs, and
  without the prefilter it tests the candidate \<open>10^50\<close> at offset 0 and reports it
  as a factor.
\<close>

theorem factorization_scans_above_ceiling:
  "(106037::int) > 100000
   \<and> runFactorization (js ''10^100'') 368 106037 40 False 12
       = Some (FactorHit 0 (10 ^ 50) (10 ^ 50) 1)"
proof -
  define X :: int where "X = 10 ^ 50"
  define N :: int where "N = X * X"
  have N: "N = 10 ^ 100" by (simp add: N_def X_def)
  have X0: "0 < X" by (simp add: X_def)
  have sq: "isqrt N = Inr X" unfolding N_def using X0 by (intro isqrt_of_square) simp
  have dv: "N smod X = 0" "N sdiv X = X"
    using X0 by (simp_all add: N_def signed_modulo_int_def signed_divide_int_def sgn_if)
  have "ringsLoop N X (primesUpTo 368) False 106037 40 0 0 = Inr (FactorHit 0 X X 1)"
    using X0 dv
    by (subst ringsLoop.simps)
      (simp add: symmetricOffsets_def skipped_def testCandidate_def passesPrefilter_def)
  moreover have "\<not> N < 4" by (simp add: N_def X_def)
  ultimately have "runFactorization (js ''10^100'') 368 106037 40 False 12 = Some (FactorHit 0 X X 1)"
    by (simp only: runFactorization_def parse_10_100 N [symmetric] parsed.case if_False sq
        sum.case catch_def option.case)
  then show ?thesis by (simp add: X_def)
qed

section \<open>The parser\<close>

lemma filter_dropWhile_not: "filter (\<lambda>c. \<not> P c) (dropWhile P xs) = filter (\<lambda>c. \<not> P c) xs"
  by (induction xs) auto

lemma removeSpaces_trim: "removeSpaces (trim raw) = removeSpaces raw"
proof -
  have "filter (\<lambda>c. \<not> isSpace c) (rev (dropWhile isSpace (rev (dropWhile isSpace raw))))
      = rev (filter (\<lambda>c. \<not> isSpace c) (dropWhile isSpace (rev (dropWhile isSpace raw))))"
    by (simp add: rev_filter)
  also have "\<dots> = rev (filter (\<lambda>c. \<not> isSpace c) (rev (dropWhile isSpace raw)))"
    by (simp add: filter_dropWhile_not)
  also have "\<dots> = filter (\<lambda>c. \<not> isSpace c) (dropWhile isSpace raw)"
    by (simp add: rev_filter [symmetric])
  also have "\<dots> = filter (\<lambda>c. \<not> isSpace c) raw"
    by (simp add: filter_dropWhile_not)
  finally show ?thesis by (simp add: removeSpaces_def trim_def)
qed

lemma digit_sequence_iff: "digit_sequence s \<longleftrightarrow> isDigitsOnly s"
  by (simp add: digit_sequence_def isDigitsOnly_def list_all_iff)

lemma caret_not_digit: "\<not> isDigit 94" "\<not> isDigit 43" "\<not> isDigit 45"
  by (simp_all add: isDigit_def)

lemma pow_prefix_not_digits: "\<not> isDigitsOnly ([49, 48, 94] @ t)"
  by (simp add: isDigitsOnly_def caret_not_digit)

lemma matchPow10_plain:
  assumes "isDigitsOnly k"
  shows "matchPow10 ([49, 48, 94] @ k) = Some (k, None)"
proof -
  have all: "\<forall>c \<in> set k. isDigit c" and ne: "k \<noteq> []"
    using assms by (simp_all add: isDigitsOnly_def list_all_iff)
  have tw: "takeWhile isDigit k = k" "dropWhile isDigit k = []" using all by simp_all
  show ?thesis using ne by (simp add: matchPow10_def Let_def tw)
qed

lemma matchPow10_signed:
  assumes "isDigitsOnly k" and "isDigitsOnly c" and "op = 43 \<or> op = 45"
  shows "matchPow10 ([49, 48, 94] @ k @ [op] @ c)
         = Some (k, Some (if op = 43 then Plus else Minus, c))"
proof -
  have all: "\<forall>c \<in> set k. isDigit c" and ne: "k \<noteq> []"
    using assms(1) by (simp_all add: isDigitsOnly_def list_all_iff)
  have nd: "\<not> isDigit op" using assms(3) caret_not_digit by auto
  have tw: "takeWhile isDigit (k @ op # c) = k" "dropWhile isDigit (k @ op # c) = op # c"
    using all nd by (simp_all add: takeWhile_append2 dropWhile_append2)
  show ?thesis using ne assms(2,3) by (simp add: matchPow10_def Let_def tw)
qed

lemma matchPow10_Some:
  assumes "matchPow10 s = Some (m1, m23)"
  shows "isDigitsOnly m1 \<and>
         (case m23 of
            None \<Rightarrow> s = [49, 48, 94] @ m1
          | Some (sg, m3) \<Rightarrow> isDigitsOnly m3 \<and>
              s = [49, 48, 94] @ m1 @ [if sg = Plus then 43 else 45] @ m3)"
proof -
  define t where "t = drop 3 s"
  define k where "k = takeWhile isDigit t"
  define rest where "rest = dropWhile isDigit t"
  have pre: "take 3 s = [49, 48, 94]" using assms by (auto simp: matchPow10_def split: if_splits)
  have s: "s = [49, 48, 94] @ k @ rest"
    using pre append_take_drop_id [of 3 s] by (simp add: k_def rest_def t_def)
  have kd: "list_all isDigit k" by (simp add: k_def list_all_iff) (meson set_takeWhileD)
  have m: "(if k = [] then None
            else case rest of
                   [] \<Rightarrow> Some (k, None)
                 | c # cs \<Rightarrow>
                     if (c = 43 \<or> c = 45) \<and> isDigitsOnly cs
                     then Some (k, Some (if c = 43 then Plus else Minus, cs))
                     else None) = Some (m1, m23)"
    unfolding k_def rest_def t_def using assms pre by (simp add: matchPow10_def Let_def)
  then have kne: "k \<noteq> []" by (auto split: if_splits)
  show ?thesis
  proof (cases rest)
    case Nil
    then show ?thesis using m kne kd s by (auto simp: isDigitsOnly_def)
  next
    case (Cons c cs)
    then show ?thesis using m kne kd s by (auto simp: isDigitsOnly_def split: if_splits)
  qed
qed

lemma parse_ok_iff:
  "parse_ok (parseBigIntExpr raw) \<longleftrightarrow> spec_accepted (removeSpaces raw)"
proof -
  define s where "s = removeSpaces raw"
  have unf: "parseBigIntExpr raw =
     (if length s = 0 then Failed EmptyInput
      else if isDigitsOnly s then Big (BigInt_of_digits s) (int (length s) - 1)
      else case matchPow10 s of
             Some (m1, m23) \<Rightarrow>
               (let k = BigInt_of_digits m1;
                    op = map_option fst m23;
                    c = (case m23 of Some (_, m3) \<Rightarrow> BigInt_of_digits m3 | None \<Rightarrow> 0)
                in if k > 2000 then LogOnly k op c
                   else let tenPow = powBI 10 k
                        in Big (case op of
                                  Some Plus \<Rightarrow> tenPow + c
                                | Some Minus \<Rightarrow> tenPow - c
                                | None \<Rightarrow> tenPow) k)
           | None \<Rightarrow> Failed UnsupportedInput)"
    by (simp add: parseBigIntExpr_def removeSpaces_trim s_def Let_def)
  have ok: "parse_ok (parseBigIntExpr raw) \<longleftrightarrow> isDigitsOnly s \<or> matchPow10 s \<noteq> None"
  proof (cases "isDigitsOnly s")
    case True
    then have "s \<noteq> []" by (simp add: isDigitsOnly_def)
    then show ?thesis using True unf by simp
  next
    case False
    show ?thesis
    proof (cases "s = []")
      case True
      then show ?thesis using unf by (simp add: matchPow10_def isDigitsOnly_def)
    next
      case ne: False
      show ?thesis
      proof (cases "matchPow10 s")
        case None
        then show ?thesis using unf False ne by simp
      next
        case (Some m)
        obtain m1 m23 where "m = (m1, m23)" by (cases m)
        then show ?thesis using unf False ne Some by (simp add: Let_def)
      qed
    qed
  qed
  have "isDigitsOnly s \<or> matchPow10 s \<noteq> None \<longleftrightarrow> spec_accepted s"
  proof
    assume "isDigitsOnly s \<or> matchPow10 s \<noteq> None"
    then show "spec_accepted s"
    proof
      assume "isDigitsOnly s"
      then show ?thesis by (simp add: spec_accepted_def digit_sequence_iff)
    next
      assume "matchPow10 s \<noteq> None"
      then obtain m1 m23 where m: "matchPow10 s = Some (m1, m23)" by auto
      note f = matchPow10_Some [OF m]
      show ?thesis
      proof (cases m23)
        case None
        then show ?thesis using f by (auto simp: spec_accepted_def digit_sequence_iff)
      next
        case (Some p)
        obtain sg m3 where "p = (sg, m3)" by (cases p)
        then have "isDigitsOnly m1" "isDigitsOnly m3"
          "s = [49, 48, 94] @ m1 @ [if sg = Plus then 43 else 45] @ m3"
          using f Some by simp_all
        then show ?thesis unfolding spec_accepted_def digit_sequence_iff
          by (cases sg) auto
      qed
    qed
  next
    assume "spec_accepted s"
    then consider "isDigitsOnly s"
      | k where "isDigitsOnly k" "s = [49, 48, 94] @ k"
      | k c op where "isDigitsOnly k" "isDigitsOnly c" "op = 43 \<or> op = 45"
          "s = [49, 48, 94] @ k @ [op] @ c"
      unfolding spec_accepted_def digit_sequence_iff by blast
    then show "isDigitsOnly s \<or> matchPow10 s \<noteq> None"
    proof cases
      case 1
      then show ?thesis by simp
    next
      case 2
      then show ?thesis using matchPow10_plain by simp
    next
      case 3
      then show ?thesis using matchPow10_signed [OF 3(1,2,3)] by simp
    qed
  qed
  then show ?thesis using ok by (simp add: s_def)
qed

lemma parse_failure_kind:
  assumes "\<not> parse_ok (parseBigIntExpr raw)"
  shows "parseBigIntExpr raw = Failed (if removeSpaces raw = [] then EmptyInput else UnsupportedInput)"
  using assms
  by (auto simp: parseBigIntExpr_def removeSpaces_trim Let_def split: option.splits if_splits)

lemma parse_example_ok: "parseBigIntExpr (js ''10^3 + 7'') = Big 1007 3"
  by (simp add: parseBigIntExpr_def js_def trim_def removeSpaces_def isSpace_def isDigit_def
      isDigitsOnly_def matchPow10_def BigInt_of_digits_def powBI_def powBI_loop.simps
      drop_bit_eq_div)

lemma parse_example_bad: "parseBigIntExpr (js ''12a'') = Failed UnsupportedInput"
  by (simp add: parseBigIntExpr_def js_def trim_def removeSpaces_def isSpace_def isDigit_def
      isDigitsOnly_def matchPow10_def)

text \<open>
  Claim C9, as amended. For every input string, with all its whitespace removed
  (the parser removes whitespace everywhere, not only at the two ends), the parser
  succeeds exactly on (a) a nonempty sequence of decimal digits or (b) \<open>10^k\<close>
  optionally followed by \<open>+c\<close> or \<open>-c\<close>; every other string fails, with the empty
  input error when nothing is left and with the unsupported input error otherwise.
\<close>

theorem parser_accepts:
  "(parse_ok (parseBigIntExpr raw) \<longleftrightarrow> spec_accepted (removeSpaces raw))
   \<and> (\<not> spec_accepted (removeSpaces raw) \<longrightarrow>
        parseBigIntExpr raw = Failed (if removeSpaces raw = [] then EmptyInput else UnsupportedInput))"
  using parse_ok_iff [of raw] parse_failure_kind [of raw] by blast

theorem parser_accepts_witness:
  "parse_ok (parseBigIntExpr (js ''10^3 + 7'')) \<and> spec_accepted (removeSpaces (js ''10^3 + 7''))
   \<and> \<not> spec_accepted (removeSpaces (js ''12a''))
   \<and> parseBigIntExpr (js ''12a'') = Failed UnsupportedInput"
  using parser_accepts [of "js ''10^3 + 7''"] parser_accepts [of "js ''12a''"]
  by (simp add: parse_example_ok parse_example_bad)

text \<open>
  Claim C9 as stated fails on a trimmed string with whitespace inside: \<open>"1 2"\<close> is
  trimmed and is of neither form, and it is parsed as 12.
\<close>

theorem parser_accepts_counterexample:
  "trim (js ''1 2'') = js ''1 2'' \<and> \<not> spec_accepted (js ''1 2'')
   \<and> parseBigIntExpr (js ''1 2'') = Big 12 1"
proof -
  have "trim (js ''1 2'') = js ''1 2''"
    by (simp add: js_def trim_def isSpace_def)
  moreover have "\<not> spec_accepted (js ''1 2'')"
    by (auto simp: spec_accepted_def digit_sequence_def isDigit_def js_def)
  moreover have "parseBigIntExpr (js ''1 2'') = Big 12 1"
    by (simp add: parseBigIntExpr_def js_def trim_def removeSpaces_def isSpace_def isDigit_def
        isDigitsOnly_def BigInt_of_digits_def)
  ultimately show ?thesis by blast
qed

section \<open>Full factorization returns prime factors with the right product\<close>

lemma gcdBI_dvd: "gcdBI a b dvd a \<and> gcdBI a b dvd b"
proof (induction a b rule: gcdBI.induct)
  case (1 a b)
  show ?case
  proof (cases "b = 0")
    case True
    then show ?thesis by (subst gcdBI.simps, subst (2) gcdBI.simps) simp
  next
    case False
    let ?g = "gcdBI b (a smod b)"
    have IH: "?g dvd b" "?g dvd a smod b" using "1.IH" [OF False] by simp_all
    have "a = a sdiv b * b + a smod b" by (simp add: sdiv_mult_smod_eq)
    moreover have "?g dvd a sdiv b * b + a smod b" using IH by (simp add: dvd_add)
    ultimately have "?g dvd a" by simp
    then show ?thesis using IH(1) False by (simp add: gcdBI.simps [of a b])
  qed
qed

lemma brent_inner_dvd:
  "g dvd n \<Longrightarrow> brent_inner n c x r k y ys q g = (y', ys', q', g') \<Longrightarrow> g' dvd n"
proof (induction n c x r k y ys q g rule: brent_inner.induct)
  case (1 n c x r k y ys q g)
  show ?case
  proof (cases "k < r \<and> g = 1")
    case False
    then have "brent_inner n c x r k y ys q g = (y, ys, q, g)"
      by (subst brent_inner.simps) auto
    then show ?thesis using "1.prems" by simp
  next
    case True
    define lim where "lim = (if 64 < r - k then 64 else r - k)"
    obtain y1 q1 where acc: "accumulate n c x lim 0 y q = (y1, q1)"
      by (cases "accumulate n c x lim 0 y q")
    have step: "brent_inner n c x r k y ys q g = brent_inner n c x r (k + 64) y1 y q1 (gcdBI q1 n)"
      using True acc by (subst brent_inner.simps) (simp add: lim_def [symmetric])
    have "gcdBI q1 n dvd n" using gcdBI_dvd by simp
    then show ?thesis
      using "1.IH" [OF True lim_def acc [symmetric] refl] "1.prems"(2) step by simp
  qed
qed

lemma brent_outer_dvd:
  assumes "brent_outer n c r y x ys q g = Some res" and "g dvd n"
  shows "snd (snd res) dvd n"
proof -
  have "g dvd n \<longrightarrow> snd (snd res) dvd n"
  proof (rule brent_outer.raw_induct
      [where P = "\<lambda>n c r y x ys q g res. g dvd n \<longrightarrow> snd (snd res) dvd n"
         and xa = "(((((((n, c), r), y), x), ys), q), g)", simplified, OF _ assms(1)])
    fix f :: "int \<Rightarrow> int \<Rightarrow> int \<Rightarrow> int \<Rightarrow> int \<Rightarrow> int \<Rightarrow> int \<Rightarrow> int \<Rightarrow> (int \<times> int \<times> int) option"
      and n c r y x ys q g :: int and res :: "int \<times> int \<times> int"
    assume IH: "\<And>c r y x ys q g b ya. f c r y x ys q g b = Some ya \<Longrightarrow> b dvd c \<longrightarrow> snd (snd ya) dvd c"
      and body: "(if g = 1
                  then case brent_inner n c y r 0 (advance n c r 0 y) ys q g of
                         (y', ys', q', g') \<Rightarrow> f n c (push_bit 1 r) y' y ys' q' g'
                  else Some (x, ys, g)) = Some res"
    show "g dvd n \<longrightarrow> snd (snd res) dvd n"
    proof (cases "g = 1")
      case False
      then show ?thesis using body by auto
    next
      case True
      obtain y1 ys1 q1 g1 where bi: "brent_inner n c y r 0 (advance n c r 0 y) ys q g = (y1, ys1, q1, g1)"
        by (cases "brent_inner n c y r 0 (advance n c r 0 y) ys q g") auto
      have g1: "g dvd n \<longrightarrow> g1 dvd n" using brent_inner_dvd [OF _ bi] by blast
      have "f n c (push_bit 1 r) y1 y ys1 q1 g1 = Some res"
        using body True bi by simp
      then show ?thesis using IH g1 by blast
    qed
  qed
  then show ?thesis using assms(2) by simp
qed

lemma backtrack_dvd:
  assumes "backtrack n c x ys = Some g"
  shows "g dvd n"
proof (rule backtrack.raw_induct
    [where P = "\<lambda>n c x ys g. g dvd n" and xa = "(((n, c), x), ys)", simplified, OF _ assms])
  fix f :: "int \<Rightarrow> int \<Rightarrow> int \<Rightarrow> int \<Rightarrow> int option" and n c x ys g :: int
  assume IH: "\<And>c x ys b y. f c x ys b = Some y \<Longrightarrow> y dvd c"
    and body: "(let ys' = (ys * ys + c) smod n;
                    g = gcdBI (if ys' < x then x - ys' else ys' - x) n
                in if g = 1 then f n c x ys' else Some g) = Some g"
  define ys' where "ys' = (ys * ys + c) smod n"
  define g' where "g' = gcdBI (if ys' < x then x - ys' else ys' - x) n"
  have b: "(if g' = 1 then f n c x ys' else Some g') = Some g"
    using body unfolding Let_def g'_def ys'_def .
  show "g dvd n"
  proof (cases "g' = 1")
    case True
    then show ?thesis using b IH by simp
  next
    case False
    then have "g = g'" using b by simp
    then show ?thesis using gcdBI_dvd by (simp add: g'_def)
  qed
qed

lemma smod2_dvd: "n smod 2 = 0 \<Longrightarrow> 2 dvd (n::int)"
  by (auto simp: signed_modulo_int_def sgn_if split: if_splits)

lemma rhoBrent_dvd:
  assumes "rhoBrent rnd n j = Some (Inr (g, j'))"
  shows "g dvd n"
proof (cases "n smod 2 = 0")
  case True
  then show ?thesis using assms smod2_dvd by (simp add: rhoBrent_def)
next
  case False
  then obtain y c res where rc: "rand rnd n j = Inr y" "rand rnd n (j + 1) = Inr c"
      "brent_outer n c 1 y 0 0 1 1 = Some res"
    using assms by (auto simp: rhoBrent_def split: sum.splits option.splits)
  obtain x ys g0 where res: "res = (x, ys, g0)" by (cases res)
  have g0: "g0 dvd n" using brent_outer_dvd [OF rc(3)] res by simp
  show ?thesis
  proof (cases "g0 = n")
    case True
    then obtain g1 where "backtrack n c x ys = Some g1" "g = g1"
      using assms False rc res by (auto simp: rhoBrent_def split: option.splits)
    then show ?thesis using backtrack_dvd by simp
  next
    case ne: False
    then have "g = g0" using assms False rc res by (simp add: rhoBrent_def)
    then show ?thesis using g0 by simp
  qed
qed

lemma retry_dvd:
  assumes "retry rnd n j = Some r"
  shows "case r of Inl e \<Rightarrow> True | Inr (d, j') \<Rightarrow> d dvd n \<and> d \<noteq> n"
proof (rule retry.raw_induct
    [where P = "\<lambda>rnd n j r. case r of Inl e \<Rightarrow> True | Inr (d, j') \<Rightarrow> d dvd n \<and> d \<noteq> n",
      OF _ assms])
  fix f :: "(nat \<Rightarrow> int) \<Rightarrow> int \<Rightarrow> nat \<Rightarrow> (error + int \<times> nat) option"
    and rnd n j r
  assume IH: "\<And>n j b y. f n j b = Some y \<Longrightarrow> case y of Inl e \<Rightarrow> True | Inr (d, j') \<Rightarrow> d dvd j \<and> d \<noteq> j"
    and body: "Option.bind (rhoBrent rnd n j)
                 (\<lambda>r. case r of Inl e \<Rightarrow> Some (Inl e)
                      | Inr (d, j') \<Rightarrow> if d = n then f rnd n j' else Some (Inr (d, j'))) = Some r"
  obtain r0 where r0: "rhoBrent rnd n j = Some r0"
      "(case r0 of Inl e \<Rightarrow> Some (Inl e)
        | Inr (d, j') \<Rightarrow> if d = n then f rnd n j' else Some (Inr (d, j'))) = Some r"
    using body by (cases "rhoBrent rnd n j") auto
  show "case r of Inl e \<Rightarrow> True | Inr (d, j') \<Rightarrow> d dvd n \<and> d \<noteq> n"
  proof (cases r0)
    case (Inl e)
    then show ?thesis using r0 by auto
  next
    case (Inr p)
    obtain d j' where p: "p = (d, j')" by (cases p)
    show ?thesis
    proof (cases "d = n")
      case True
      then show ?thesis using r0 Inr p IH by simp
    next
      case False
      have "d dvd n" using rhoBrent_dvd r0(1) Inr p by simp
      then show ?thesis using r0 Inr p False by auto
    qed
  qed
qed

lemma smod_zero_mult: "n smod p = 0 \<Longrightarrow> p * (n sdiv p) = (n::int)"
  using mult_sdiv_smod_eq [of p n] by simp

lemma dvd_smod_zero: "d dvd n \<Longrightarrow> n smod d = (0::int)"
  by (auto simp: signed_modulo_int_def)

lemma dvd_sdiv_mult: "d dvd n \<Longrightarrow> d * (n sdiv d) = (n::int)"
  by (simp add: smod_zero_mult dvd_smod_zero)

lemma firstDivisor_Some: "firstDivisor n ps = Some p \<Longrightarrow> n smod p = 0"
  by (induction ps) (auto split: if_splits)

lemma fermat_loop_product:
  "fermat_loop n a i maxSteps = Some (Inr (Some (p, q))) \<Longrightarrow> p * q = n"
proof (induction n a i maxSteps rule: fermat_loop.induct)
  case (1 n a i maxSteps)
  show ?case
  proof (cases "i < maxSteps")
    case False
    then show ?thesis using "1.prems" by (simp add: fermat_loop.simps [of n a i maxSteps])
  next
    case True
    then obtain b where b: "isqrt_newton (a * a - n) = Some (Inr b)"
      using "1.prems" by (subst (asm) fermat_loop.simps) (auto split: option.splits sum.splits)
    show ?thesis
    proof (cases "b * b = a * a - n \<and> a - b > 1 \<and> a + b > 1 \<and> (a - b) * (a + b) = n")
      case hit: True
      then have "fermat_loop n a i maxSteps = Some (Inr (Some (a - b, a + b)))"
        using True b by (subst fermat_loop.simps) simp
      then show ?thesis using "1.prems" hit by simp
    next
      case miss: False
      then have "fermat_loop n a i maxSteps = fermat_loop n (a + 1) (i + 1) maxSteps"
        using True b by (subst fermat_loop.simps) auto
      then show ?thesis using "1.IH" [OF True b refl miss] "1.prems" by simp
    qed
  qed
qed

lemma fermatFactor_product:
  "fermatFactor n maxSteps = Some (Inr (Some (p, q))) \<Longrightarrow> p * q = n"
  by (auto simp: fermatFactor_def split: option.splits sum.splits dest: fermat_loop_product)

lemma andThen_Inr:
  assumes "andThen m f = Some (Inr z)"
  obtains out1 j1 where "m = Some (Inr (out1, j1))" and "f out1 j1 = Some (Inr z)"
proof -
  obtain r where r: "m = Some r"
      "(case r of Inl e \<Rightarrow> Some (Inl e) | Inr (out, j) \<Rightarrow> f out j) = Some (Inr z)"
    using assms by (cases m) (auto simp: andThen_def)
  show ?thesis
  proof (cases r)
    case (Inl e)
    then show ?thesis using r by simp
  next
    case (Inr p)
    obtain out1 j1 where "p = (out1, j1)" by (cases p)
    then show ?thesis using r Inr that by simp
  qed
qed

lemma factored_split:
  assumes "factored p out out1" and "factored q out1 out2"
  shows "factored (p * q) out out2"
proof -
  obtain fs1 where 1: "out1 = out @ fs1" "prod_list fs1 = p" "\<forall>x \<in> set fs1. isPrime64 x = Some (Inr True)"
    using assms(1) by (auto simp: factored_def)
  obtain fs2 where 2: "out2 = out1 @ fs2" "prod_list fs2 = q" "\<forall>x \<in> set fs2. isPrime64 x = Some (Inr True)"
    using assms(2) by (auto simp: factored_def)
  have "out2 = out @ (fs1 @ fs2)" using 1 2 by simp
  moreover have "prod_list (fs1 @ fs2) = p * q" using 1 2 by simp
  moreover have "\<forall>x \<in> set (fs1 @ fs2). isPrime64 x = Some (Inr True)" using 1 2 by auto
  ultimately show ?thesis unfolding factored_def by blast
qed

lemma factor_factored:
  assumes "factor rnd n out j = Some r"
  shows "case r of Inl e \<Rightarrow> True | Inr (out', j') \<Rightarrow> factored n out out'"
proof (rule factor.raw_induct
    [where P = "\<lambda>rnd n out j r. case r of Inl e \<Rightarrow> True | Inr (out', j') \<Rightarrow> factored n out out'",
      OF _ assms])
  fix f :: "(nat \<Rightarrow> int) \<Rightarrow> int \<Rightarrow> int list \<Rightarrow> nat \<Rightarrow> (error + int list \<times> nat) option"
    and rnd n out j r
  assume IH: "\<And>n out j b y. f n out j b = Some y \<Longrightarrow>
                 case y of Inl e \<Rightarrow> True | Inr (out', j') \<Rightarrow> factored out j out'"
    and body: "(if n = 1 then Some (Inr (out, j))
      else case isPrime64 n of None \<Rightarrow> None | Some (Inl e) \<Rightarrow> Some (Inl e)
           | Some (Inr prime) \<Rightarrow>
               if prime then Some (Inr (out @ [n], j))
               else case firstDivisor n [2, 3, 5, 7, 11, 13, 17, 19, 23, 29, 31, 37, 41, 43, 47] of
                    None \<Rightarrow>
                      (case fermatFactor n 2000000 of None \<Rightarrow> None
                      | Some (Inl e) \<Rightarrow> Some (Inl e)
                      | Some (Inr None) \<Rightarrow>
                          (case retry rnd n j of None \<Rightarrow> None
                          | Some (Inl e) \<Rightarrow> Some (Inl e)
                          | Some (Inr (d, j')) \<Rightarrow>
                              andThen (f rnd d out j') (f rnd (n sdiv d)))
                      | Some (Inr (Some (p, q))) \<Rightarrow>
                          andThen (f rnd p out j) (f rnd q))
                    | Some p \<Rightarrow> andThen (f rnd p out j) (f rnd (n sdiv p))) = Some r"
  have IH': "f rnd' n' out' j' = Some (Inr (o2, j2)) \<Longrightarrow> factored n' out' o2" for rnd' n' out' j' o2 j2
    using IH [of rnd' n' out' j' "Inr (o2, j2)"] by simp
  have two: "factored (p * q) out o2"
    if h: "andThen (f rnd p out j0) (f rnd q) = Some (Inr (o2, j2))" for p q j0 o2 j2
  proof -
    obtain o1 j1 where "f rnd p out j0 = Some (Inr (o1, j1))" "f rnd q o1 j1 = Some (Inr (o2, j2))"
      using andThen_Inr [OF h] by blast
    then show ?thesis using IH' factored_split by blast
  qed
  show "case r of Inl e \<Rightarrow> True | Inr (out', j') \<Rightarrow> factored n out out'"
  proof (cases r)
    case (Inl e)
    then show ?thesis by simp
  next
    case (Inr z)
    obtain o2 j2 where z: "z = (o2, j2)" by (cases z)
    have goal: "factored n out o2"
    proof (cases "n = 1")
      case True
      then have "o2 = out" using body Inr z by simp
      then show ?thesis using True by (simp add: factored_def)
    next
      case n1: False
      then obtain prime where pr: "isPrime64 n = Some (Inr prime)"
        using body Inr by (auto split: option.splits sum.splits)
      show ?thesis
      proof (cases prime)
        case True
        then have "o2 = out @ [n]" using body n1 pr Inr z by simp
        then show ?thesis using pr True by (simp add: factored_def)
      next
        case np: False
        show ?thesis
        proof (cases "firstDivisor n [2, 3, 5, 7, 11, 13, 17, 19, 23, 29, 31, 37, 41, 43, 47]")
          case (Some p)
          then have "andThen (f rnd p out j) (f rnd (n sdiv p)) = Some (Inr (o2, j2))"
            using body n1 pr np Inr z by (simp del: firstDivisor.simps)
          then have "factored (p * (n sdiv p)) out o2" by (rule two)
          then show ?thesis using firstDivisor_Some [OF Some] by (simp add: smod_zero_mult)
        next
          case None
          then obtain ff where ff: "fermatFactor n 2000000 = Some (Inr ff)"
            using body n1 pr np Inr
            by (auto simp del: firstDivisor.simps split: option.splits sum.splits)
          show ?thesis
          proof (cases ff)
            case (Some pq)
            obtain p q where pq: "pq = (p, q)" by (cases pq)
            have "andThen (f rnd p out j) (f rnd q) = Some (Inr (o2, j2))"
              using body n1 pr np None ff Some pq Inr z by (simp del: firstDivisor.simps)
            then have "factored (p * q) out o2" by (rule two)
            then show ?thesis using fermatFactor_product ff Some pq by simp
          next
            case nf: None
            then obtain d j' where d: "retry rnd n j = Some (Inr (d, j'))"
              using body n1 pr np None ff Inr
              by (auto simp del: firstDivisor.simps split: option.splits sum.splits)
            have "andThen (f rnd d out j') (f rnd (n sdiv d)) = Some (Inr (o2, j2))"
              using body n1 pr np None ff nf d Inr z by (simp del: firstDivisor.simps)
            then have "factored (d * (n sdiv d)) out o2" by (rule two)
            moreover have "d dvd n" using retry_dvd [OF d] by simp
            ultimately show ?thesis by (simp add: dvd_sdiv_mult)
          qed
        qed
      qed
    qed
    then show ?thesis using Inr z by simp
  qed
qed

lemma isPrime64_7: "isPrime64 7 = Some (Inr True)"
  by (simp add: isPrime64_def)

lemma isPrime64_13: "isPrime64 13 = Some (Inr True)"
  by (simp add: isPrime64_def)

lemma isPrime64_91: "isPrime64 91 = Some (Inr False)"
  by (simp add: isPrime64_def)

lemma factor_7: "factor rnd 7 out j = Some (Inr (out @ [7], j))"
  by (subst factor.simps) (simp add: isPrime64_7)

lemma factor_13: "factor rnd 13 out j = Some (Inr (out @ [13], j))"
  by (subst factor.simps) (simp add: isPrime64_13)

lemma factorizeBigInt_91: "factorizeBigInt rnd 91 j = Some (Inr ([7, 13], j))"
  unfolding factorizeBigInt_def
  by (subst factor.simps)
    (simp add: isPrime64_91 factor_7 factor_13 andThen_def signed_divide_int_def)

text \<open>
  Claim C1. For every integer \<open>N \<ge> 1\<close> on which \<open>factorizeBigInt(N)\<close> returns,
  whatever the values drawn from \<open>Math.random\<close>, the product of the entries of the
  returned list is \<open>N\<close> and every entry passes \<open>isPrime64\<close>.
\<close>

theorem factorizeBigInt_correct:
  assumes "1 \<le> N" and "factorizeBigInt rnd N j = Some (Inr (fs, j'))"
  shows "prod_list fs = N \<and> (\<forall>p \<in> set fs. isPrime64 p = Some (Inr True))"
  using factor_factored [of rnd N "[]" j "Inr (fs, j')"] assms(2)
  by (simp add: factorizeBigInt_def factored_def)

theorem factorizeBigInt_correct_witness:
  "(1::int) \<le> 91 \<and> factorizeBigInt (\<lambda>j. 0) 91 0 = Some (Inr ([7, 13], 0))
   \<and> prod_list [7, 13] = (91::int)
   \<and> isPrime64 7 = Some (Inr True) \<and> isPrime64 13 = Some (Inr True)"
proof -
  have run: "factorizeBigInt (\<lambda>j. 0) 91 0 = Some (Inr ([7, 13], 0))"
    by (rule factorizeBigInt_91)
  have "(1::int) \<le> 91" by simp
  then show ?thesis using run factorizeBigInt_correct [OF _ run] by simp
qed

end
